theory Spec2Isabelle
  imports Main "HOL-Library.Sublist"
begin

section \<open>The shared camera stream manager (lib/cameraStreamManager.ts)\<close>

text \<open>
  The module keeps three variables, \<open>stream\<close>, \<open>usageCount\<close> and \<open>isInitializing\<close>,
  and exports the asynchronous \<open>getCameraStream\<close> and the synchronous
  \<open>releaseCameraStream\<close>, \<open>getCameraUsageCount\<close> and \<open>isStreamActive\<close>.
  JavaScript runs one task at a time and a task gives up control only at an \<open>await\<close>, so
  a call of \<open>getCameraStream\<close> is modelled as a task that is suspended at one of its
  \<open>await\<close>s and is resumed with the value the awaited promise resolved to; one resumption runs
  the code up to the next \<open>await\<close>, to the \<open>return\<close> or to the \<open>throw\<close>.
\<close>

subsection \<open>Browser values\<close>

datatype trackKind = Video | Audio

datatype readyState = Live | Ended

datatype track = Track (trackId: nat) (kind: trackKind) (readyState: readyState)

datatype mediaStream = MediaStream (streamId: nat) (getTracks: "track list")

definition getVideoTracks :: "mediaStream \<Rightarrow> track list" where
  "getVideoTracks s = filter (\<lambda>t. kind t = Video) (getTracks s)"

datatype jsError = JsError (message: string)

datatype facingMode = Facing string | FacingIdeal string | FacingExact string

datatype range = Range (ideal: "nat option") (maxv: "nat option")

text \<open>\<open>{ video: true }\<close> or \<open>{ video: { facingMode, width, height, frameRate } }\<close>.\<close>

datatype constraints =
    VideoTrue
  | VideoSpec (facing: "facingMode option") (width: "range option")
      (height: "range option") (frameRate: "range option")

subsection \<open>The fallback lists\<close>

text \<open>The list of the first revision of the file (lines 39 to 76).\<close>

definition constraintOptions :: "constraints list" where
  "constraintOptions =
    [VideoSpec (Some (Facing ''environment''))
       (Some (Range (Some 1280) (Some 1920))) (Some (Range (Some 720) (Some 1080)))
       (Some (Range (Some 30) (Some 60))),
     VideoSpec (Some (FacingIdeal ''environment''))
       (Some (Range (Some 640) (Some 1280))) (Some (Range (Some 480) (Some 720))) None,
     VideoSpec (Some (Facing ''user''))
       (Some (Range (Some 640) None)) (Some (Range (Some 480) None)) None,
     VideoSpec None (Some (Range (Some 640) None)) (Some (Range (Some 480) None)) None,
     VideoTrue]"

text \<open>The list of the second revision of the file (lines 202 to 230).\<close>

definition constraintOptions2 :: "constraints list" where
  "constraintOptions2 =
    [VideoTrue,
     VideoSpec None (Some (Range (Some 640) None)) (Some (Range (Some 480) None)) None,
     VideoSpec (Some (Facing ''user''))
       (Some (Range (Some 640) None)) (Some (Range (Some 480) None)) None,
     VideoSpec (Some (FacingIdeal ''environment''))
       (Some (Range (Some 640) None)) (Some (Range (Some 480) None)) None]"

subsection \<open>Module state, hardware and tasks\<close>

text \<open>
  A suspended or finished call of \<open>getCameraStream\<close>:
  \<^item> \<open>Polling\<close>: at line 11, inside \<open>while (isInitializing)\<close>, awaiting the 100 ms timer;
  \<^item> \<open>Enumerating\<close>: at line 27, awaiting \<open>enumerateDevices()\<close>;
  \<^item> \<open>Requesting i lastError\<close>: at line 83, awaiting \<open>getUserMedia(constraintOptions[i])\<close>;
  \<^item> \<open>Returned s\<close> and \<open>Threw msg\<close>: the promise of the call is settled.
\<close>

datatype task =
    Polling
  | Enumerating
  | Requesting nat "jsError option"
  | Returned mediaStream
  | Threw string

text \<open>What an awaited promise resolved to.\<close>

datatype resolution =
    TimerFired
  | DevicesListed nat
  | DevicesFailed jsError
  | GumResolved mediaStream
  | GumRejected jsError

text \<open>
  \<open>openTracks\<close> is the hardware side: the (stream, track) pairs that \<open>getUserMedia\<close> has handed
  out and on which \<open>stop()\<close> has not been called. \<open>requests\<close> logs every \<open>getUserMedia\<close> call
  with the task that made it. \<open>gumSupported\<close> is \<open>navigator?.mediaDevices?.getUserMedia\<close>.
\<close>

record world =
  stream :: "mediaStream option"
  usageCount :: int
  isInitializing :: bool
  gumSupported :: bool
  openTracks :: "(nat \<times> nat) list"
  requests :: "(nat \<times> constraints) list"
  tasks :: "nat \<Rightarrow> task option"
  nextTask :: nat

definition init :: "bool \<Rightarrow> world" where
  "init supported = \<lparr> stream = None, usageCount = 0, isInitializing = False, gumSupported = supported,
     openTracks = [], requests = [], tasks = (\<lambda>_. None), nextTask = 0 \<rparr>"

text \<open>\<open>stream.getTracks().forEach(track => track.stop())\<close>\<close>

definition stopTrack :: "nat \<Rightarrow> track \<Rightarrow> (nat \<times> nat) list \<Rightarrow> (nat \<times> nat) list" where
  "stopTrack sid t ot = removeAll (sid, trackId t) ot"

definition stopAll :: "mediaStream \<Rightarrow> (nat \<times> nat) list \<Rightarrow> (nat \<times> nat) list" where
  "stopAll s ot = fold (stopTrack (streamId s)) (getTracks s) ot"

text \<open>The handles the hardware opens when \<open>getUserMedia\<close> resolves with \<open>s\<close>.\<close>

definition handles :: "mediaStream \<Rightarrow> (nat \<times> nat) list" where
  "handles s = map (\<lambda>t. (streamId s, trackId t)) (getTracks s)"

subsection \<open>getCameraStream, from one await to the next\<close>

text \<open>\<open>lastError?.message || 'Unknown error'\<close>: an absent error and an empty message both give
  the default.\<close>

definition lastMessage :: "jsError option \<Rightarrow> string" where
  "lastMessage le = (case le of None \<Rightarrow> ''Unknown error''
     | Some e \<Rightarrow> if message e = [] then ''Unknown error'' else message e)"

text \<open>Lines 115 to 120: the outer \<open>catch\<close> wraps the message, \<open>finally\<close> clears the flag.\<close>

definition accessFailed :: "string \<Rightarrow> string" where
  "accessFailed msg = ''Camera access failed: '' @ msg"

definition failWith :: "string \<Rightarrow> world \<Rightarrow> task \<times> world" where
  "failWith msg w = (Threw (accessFailed msg), w\<lparr>isInitializing := False\<rparr>)"

text \<open>Lines 111 to 124, reached when the loop has ended or was left by \<open>break\<close>.\<close>

definition allFailed :: "jsError option \<Rightarrow> string" where
  "allFailed le = ''All camera initialization attempts failed. Last error: '' @ lastMessage le"

definition afterLoop :: "jsError option \<Rightarrow> world \<Rightarrow> task \<times> world" where
  "afterLoop le w =
    (case stream w of
       None \<Rightarrow> failWith (allFailed le) w
     | Some s \<Rightarrow> (Returned s, w\<lparr>isInitializing := False, usageCount := usageCount w + 1\<rparr>))"

text \<open>The head of the loop at line 80 for index \<open>i\<close>: the next request, or the end of the loop.\<close>

definition tryOption :: "constraints list \<Rightarrow> nat \<Rightarrow> nat \<Rightarrow> jsError option \<Rightarrow> world
    \<Rightarrow> task \<times> world" where
  "tryOption opts k i le w =
    (if i < length opts
     then (Requesting i le, w\<lparr>requests := requests w @ [(k, opts ! i)]\<rparr>)
     else afterLoop le w)"

text \<open>Lines 86 to 93: the test a resolved stream has to pass.\<close>

definition working :: "mediaStream \<Rightarrow> bool" where
  "working s = (length (getTracks s) > 0 \<and>
     (case getVideoTracks s of [] \<Rightarrow> False | videoTrack # _ \<Rightarrow> readyState videoTrack = Live))"

text \<open>Lines 96 to 99 and 104 to 107: \<open>if (stream) { stop every track; stream = null }\<close>.\<close>

definition dropStream :: "world \<Rightarrow> world" where
  "dropStream w = (case stream w of None \<Rightarrow> w
     | Some s \<Rightarrow> w\<lparr>openTracks := stopAll s (openTracks w), stream := None\<rparr>)"

text \<open>Line 16 onwards, entered with no await pending.\<close>

definition notSupported :: string where
  "notSupported = ''Camera not supported in this browser''"

definition fromLine16 :: "world \<Rightarrow> task \<times> world" where
  "fromLine16 w =
    (case stream w of
       Some s \<Rightarrow> (Returned s, w\<lparr>usageCount := usageCount w + 1\<rparr>)
     | None \<Rightarrow>
        (let w1 = w\<lparr>isInitializing := True\<rparr> in
         if \<not> gumSupported w1 then failWith notSupported w1
         else (Enumerating, w1)))"

text \<open>The call itself: lines 8 to 14 up to the first timer, or straight to line 16.\<close>

definition getCameraStream :: "world \<Rightarrow> task \<times> world" where
  "getCameraStream w = (if isInitializing w then (Polling, w) else fromLine16 w)"

text \<open>
  Resuming task \<open>k\<close>, suspended as \<open>t\<close>, with resolution \<open>r\<close>; \<open>None\<close> when the task is not
  waiting for a resolution of that kind.
\<close>

fun resume :: "constraints list \<Rightarrow> nat \<Rightarrow> task \<Rightarrow> resolution \<Rightarrow> world
    \<Rightarrow> (task \<times> world) option" where
  "resume opts k Polling TimerFired w =
    Some (if isInitializing w then (Polling, w)
          else (case stream w of Some s \<Rightarrow> (Returned s, w) | None \<Rightarrow> fromLine16 w))"
| "resume opts k Enumerating (DevicesListed n) w = Some (tryOption opts k 0 None w)"
| "resume opts k Enumerating (DevicesFailed e) w = Some (tryOption opts k 0 None w)"
| "resume opts k (Requesting i le) (GumResolved s) w =
    (let w1 = w\<lparr>stream := Some s, openTracks := openTracks w @ handles s\<rparr> in
     Some (if working s
           then afterLoop le w1
           else tryOption opts k (i + 1) le (dropStream w1)))"
| "resume opts k (Requesting i le) (GumRejected e) w =
    Some (tryOption opts k (i + 1) (Some e) (dropStream w))"
| "resume opts k t r w = None"

text \<open>Lines 127 to 141.\<close>

definition releaseCameraStream :: "world \<Rightarrow> world" where
  "releaseCameraStream w =
    (let w1 = w\<lparr>usageCount := max (usageCount w - 1) 0\<rparr> in
     if usageCount w1 = 0 \<and> stream w1 \<noteq> None then dropStream w1 else w1)"

definition getCameraUsageCount :: "world \<Rightarrow> int" where
  "getCameraUsageCount w = usageCount w"


subsection \<open>Interleavings\<close>

datatype event = Call | Release | Resume nat resolution

fun step :: "constraints list \<Rightarrow> event \<Rightarrow> world \<Rightarrow> world" where
  "step opts Call w =
    (let k = nextTask w; (t, w') = getCameraStream w
     in w'\<lparr>tasks := (tasks w')(k \<mapsto> t), nextTask := k + 1\<rparr>)"
| "step opts Release w = releaseCameraStream w"
| "step opts (Resume k r) w =
    (case tasks w k of
       None \<Rightarrow> w
     | Some t \<Rightarrow> (case resume opts k t r w of
           None \<Rightarrow> w
         | Some (t', w') \<Rightarrow> w'\<lparr>tasks := (tasks w')(k \<mapsto> t')\<rparr>))"

definition run :: "constraints list \<Rightarrow> event list \<Rightarrow> world \<Rightarrow> world" where
  "run opts evs w = foldl (\<lambda>w ev. step opts ev w) w evs"

text \<open>A task is inside the acquisition block (lines 17 to 120).\<close>

fun acquiring :: "task \<Rightarrow> bool" where
  "acquiring Enumerating = True"
| "acquiring (Requesting i le) = True"
| "acquiring t = False"

text \<open>The hardware streams that have an open track.\<close>

definition openStreams :: "world \<Rightarrow> nat set" where
  "openStreams w = fst ` set (openTracks w)"

text \<open>An outcome of \<open>getUserMedia\<close> that the loop treats as a failed option: a rejection, or a
  stream that does not pass the test of lines 86 to 93.\<close>

fun fails :: "resolution \<Rightarrow> bool" where
  "fails (GumRejected e) = True"
| "fails (GumResolved s) = (\<not> working s)"
| "fails r = False"

text \<open>The value of the variable \<open>lastError\<close> after the given outcomes: the catch block at line 101
  is the only place that assigns it.\<close>

fun lastError :: "jsError option \<Rightarrow> resolution list \<Rightarrow> jsError option" where
  "lastError le [] = le"
| "lastError le (GumRejected e # rs) = lastError (Some e) rs"
| "lastError le (r # rs) = lastError le rs"

fun enumerated :: "resolution \<Rightarrow> bool" where
  "enumerated (DevicesListed n) = True"
| "enumerated (DevicesFailed e) = True"
| "enumerated r = False"

subsection \<open>The invariant of the module at every suspension point\<close>

definition inv :: "world \<Rightarrow> bool" where
  "inv w \<longleftrightarrow>
     0 \<le> usageCount w \<and>
     (\<forall>k t. tasks w k = Some t \<longrightarrow> acquiring t \<longrightarrow> isInitializing w \<and> stream w = None) \<and>
     (\<forall>j k t u. tasks w j = Some t \<longrightarrow> tasks w k = Some u \<longrightarrow> acquiring t \<longrightarrow> acquiring u
        \<longrightarrow> j = k) \<and>
     (case stream w of None \<Rightarrow> openTracks w = [] \<and> usageCount w = 0
        | Some s \<Rightarrow> set (openTracks w) \<subseteq> set (handles s) \<and> 0 < usageCount w) \<and>
     (\<forall>k. nextTask w \<le> k \<longrightarrow> tasks w k = None)"

subsection \<open>Concrete streams, errors and schedules\<close>

definition liveStream :: mediaStream where
  "liveStream = MediaStream 1 [Track 0 Video Live]"

definition endedStream :: mediaStream where
  "endedStream = MediaStream 2 [Track 0 Video Ended]"

definition denied :: jsError where
  "denied = JsError ''Permission denied''"

text \<open>Task 0 calls and is suspended in \<open>getUserMedia\<close>; task 1 calls meanwhile and polls; the
  request of task 0 resolves with a live stream; the timer of task 1 fires.\<close>

definition waiterSchedule :: "event list" where
  "waiterSchedule = [Call, Resume 0 (DevicesListed 1), Call,
     Resume 0 (GumResolved liveStream), Resume 1 TimerFired]"

text \<open>The same start, but every option of task 0 is rejected; then the timer of task 1 fires and
  its device enumeration resolves.\<close>

definition failedFirstSchedule :: "event list" where
  "failedFirstSchedule = [Call, Resume 0 (DevicesListed 1), Call,
     Resume 0 (GumRejected denied), Resume 0 (GumRejected denied), Resume 0 (GumRejected denied),
     Resume 0 (GumRejected denied), Resume 0 (GumRejected denied),
     Resume 1 TimerFired, Resume 1 (DevicesListed 1)]"

definition failingOutcomes :: "resolution list" where
  "failingOutcomes = [GumRejected denied, GumResolved endedStream, GumRejected denied,
     GumRejected denied, GumResolved endedStream]"

section \<open>The revision of the manager with one primary and one fallback request\<close>

text \<open>
  The second document of \<^verbatim>\<open>src/unnamed/part_003\<close> is a revision of the same module
  in which \<open>getCameraStream\<close> has no loop: one request with \<open>constraints\<close> (line 222) and,
  if that throws, one with \<open>fallbackConstraints\<close> (line 244). The module variables, the
  polling loop and \<open>releaseCameraStream\<close> are the same. \<open>Requesting 0 None\<close> stands for the
  await at line 222, \<open>Requesting 1 (Some e)\<close> for the await at line 244 with \<open>e\<close> the
  error the outer catch block holds.
\<close>

definition primaryConstraints :: constraints where
  "primaryConstraints = VideoSpec (Some (Facing ''environment''))
     (Some (Range (Some 1280) (Some 1920))) (Some (Range (Some 720) (Some 1080)))
     (Some (Range (Some 30) (Some 60)))"

definition fallbackConstraints :: constraints where
  "fallbackConstraints = VideoSpec (Some (FacingIdeal ''environment''))
     (Some (Range (Some 640) None)) (Some (Range (Some 480) None)) None"

definition noTracks :: jsError where
  "noTracks = JsError ''No camera tracks available''"

definition fromLine203 :: "nat \<Rightarrow> world \<Rightarrow> task \<times> world" where
  "fromLine203 k w =
    (case stream w of
       Some s \<Rightarrow> (Returned s, w\<lparr>usageCount := usageCount w + 1\<rparr>)
     | None \<Rightarrow>
        (let w1 = w\<lparr>isInitializing := True\<rparr> in
         if \<not> gumSupported w1 then failWith notSupported w1
         else (Requesting 0 None, w1\<lparr>requests := requests w1 @ [(k, primaryConstraints)]\<rparr>)))"

definition getCameraStream3 :: "nat \<Rightarrow> world \<Rightarrow> task \<times> world" where
  "getCameraStream3 k w = (if isInitializing w then (Polling, w) else fromLine203 k w)"

fun resume3 :: "nat \<Rightarrow> task \<Rightarrow> resolution \<Rightarrow> world \<Rightarrow> (task \<times> world) option" where
  "resume3 k Polling TimerFired w =
    Some (if isInitializing w then (Polling, w)
          else (case stream w of Some s \<Rightarrow> (Returned s, w) | None \<Rightarrow> fromLine203 k w))"
| "resume3 k (Requesting 0 None) (GumResolved s) w =
    (let w1 = w\<lparr>stream := Some s, openTracks := openTracks w @ handles s\<rparr> in
     Some (if length (getTracks s) = 0
           then (Requesting 1 (Some noTracks),
                 w1\<lparr>requests := requests w1 @ [(k, fallbackConstraints)]\<rparr>)
           else (Returned s, w1\<lparr>isInitializing := False, usageCount := usageCount w1 + 1\<rparr>)))"
| "resume3 k (Requesting 0 None) (GumRejected e) w =
    Some (Requesting 1 (Some e), w\<lparr>requests := requests w @ [(k, fallbackConstraints)]\<rparr>)"
| "resume3 k (Requesting (Suc 0) (Some e)) (GumResolved s) w =
    Some (Returned s, w\<lparr>stream := Some s, openTracks := openTracks w @ handles s,
       isInitializing := False, usageCount := usageCount w + 1\<rparr>)"
| "resume3 k (Requesting (Suc 0) (Some e)) (GumRejected fe) w = Some (failWith (message e) w)"
| "resume3 k t r w = None"

fun step3 :: "event \<Rightarrow> world \<Rightarrow> world" where
  "step3 Call w =
    (let k = nextTask w; (t, w') = getCameraStream3 k w
     in w'\<lparr>tasks := (tasks w')(k \<mapsto> t), nextTask := k + 1\<rparr>)"
| "step3 Release w = releaseCameraStream w"
| "step3 (Resume k r) w =
    (case tasks w k of
       None \<Rightarrow> w
     | Some t \<Rightarrow> (case resume3 k t r w of
           None \<Rightarrow> w
         | Some (t', w') \<Rightarrow> w'\<lparr>tasks := (tasks w')(k \<mapsto> t')\<rparr>))"

definition run3 :: "event list \<Rightarrow> world \<Rightarrow> world" where
  "run3 evs w = foldl (\<lambda>w ev. step3 ev w) w evs"

section \<open>The scanner widget with an attempt counter (src/unnamed/part_002)\<close>

text \<open>
  The component keeps three refs (\<open>scanner\<close>, \<open>isCleaningUp\<close>, \<open>initializationAttempt\<close>) and two
  pieces of React state (\<open>isInitializing\<close>, \<open>error\<close>). Its first effect (lines 67 to 217) stamps
  an attempt and schedules \<open>initScanner\<close> with a 200 ms timer; the function it returns clears the
  timer and invalidates the attempt. Its second effect (lines 220 to 224) calls \<open>safeCleanup\<close>
  when the component unmounts. As for the manager, every \<open>await\<close> is a suspension point.

  The decode engine \<open>Html5Qrcode\<close> belongs to a library. Of an engine only the scanning state that
  \<open>getState()\<close> reports is modelled, with the attempt whose handlers it was started with: a
  \<open>start\<close> that resolves leaves it \<open>SCANNING\<close>, a \<open>stop\<close> that resolves leaves it \<open>NOT_STARTED\<close>, a
  rejected \<open>start\<close> leaves it in a state of the library's choosing (the code itself asks for
  it at line 164), and a rejected \<open>stop\<close> leaves it as it was. \<open>clear()\<close> acts on the page only.
\<close>

subsection \<open>Values\<close>

datatype scannerState = UNKNOWN | NOT_STARTED | SCANNING | PAUSED

datatype decodedResult = DecodedResult (resultText: string) (resultFormat: string)

text \<open>The three callbacks of the props, as the calls made on them.\<close>

datatype callback = OnScannerInit bool | OnScanSuccess string decodedResult | OnScanError string

text \<open>A thrown or rejected value: an \<open>Error\<close> with its message, some other truthy value, or a
  falsy value (\<open>undefined\<close>, \<open>null\<close>, the empty string).\<close>

datatype thrown = AnError jsError | NotAnError | Falsy

record props =
  isActive :: bool
  fps :: nat
  qrbox :: "nat option"
  preferredCamera :: string

text \<open>Lines 112 to 123; \<open>undefined\<close> is \<open>None\<close>.\<close>

definition cameraOptions :: "facingMode option list" where
  "cameraOptions =
    [Some (Facing ''environment''),
     Some (FacingIdeal ''environment''),
     Some (FacingExact ''environment''),
     Some (Facing ''user''),
     None]"

text \<open>Line 138: \<open>cameraOptions[i] || { facingMode: preferredCamera }\<close>.\<close>

definition cameraConfig :: "props \<Rightarrow> nat \<Rightarrow> facingMode" where
  "cameraConfig p i = (case cameraOptions ! i of Some c \<Rightarrow> c | None \<Rightarrow> Facing (preferredCamera p))"

text \<open>
  Where an attempt is:
  \<^item> \<open>Scheduled\<close>: the timer of line 208 is pending; \<open>Cancelled\<close>: \<open>clearTimeout\<close> got it first;
  \<^item> \<open>CleanupStop e\<close>: line 45, awaiting \<open>stop()\<close> of engine \<open>e\<close> inside \<open>safeCleanup\<close>;
  \<^item> \<open>CleanupDelay\<close>: line 53, awaiting the 100 ms timer inside \<open>safeCleanup\<close>;
  \<^item> \<open>Settling\<close>: line 87, awaiting the 300 ms timer (the \<open>await\<close> of line 84 has no code between
    it and line 87, so it is not a state of its own);
  \<^item> \<open>Starting i e lastError\<close>: line 137, awaiting \<open>start\<close> of engine \<open>e\<close> with option \<open>i\<close>;
  \<^item> \<open>FallbackStop i e lastError\<close>: line 167, awaiting \<open>stop()\<close> of engine \<open>e\<close> in the catch block;
  \<^item> \<open>Finished\<close>: \<open>initScanner\<close> has returned.
\<close>

datatype pc =
    Scheduled
  | Cancelled
  | CleanupStop nat
  | CleanupDelay
  | Settling
  | Starting nat nat "thrown option"
  | FallbackStop nat nat thrown
  | Finished

datatype outcome =
    Timeout
  | StartResolved
  | StartRejected thrown scannerState
  | StopResolved
  | StopRejected thrown

text \<open>
  \<open>calls\<close> lists the calls made on the props' callbacks, each with the attempt whose closure made
  it; \<open>starts\<close> logs the \<open>start\<close> calls (attempt, engine, camera, fps). \<open>teardown\<close> is the
  \<open>safeCleanup\<close> task of the unmount effect. \<open>mounted\<close> is \<open>qrRef.current\<close> being set.
\<close>

record widget =
  scanner :: "nat option"
  isCleaningUp :: bool
  initializationAttempt :: nat
  isInitializing' :: bool
  error :: "string option"
  mounted :: bool
  engines :: "nat \<Rightarrow> (scannerState \<times> nat) option"
  nextEngine :: nat
  attempts :: "nat \<Rightarrow> (props \<times> pc) option"
  teardown :: "pc option"
  calls :: "(nat \<times> callback) list"
  starts :: "(nat \<times> nat \<times> facingMode \<times> nat) list"

definition mountedWidget :: widget where
  "mountedWidget = \<lparr> scanner = None, isCleaningUp = False, initializationAttempt = 0,
     isInitializing' = False, error = None, mounted = True, engines = (\<lambda>_. None), nextEngine = 0,
     attempts = (\<lambda>_. None), teardown = None, calls = [], starts = [] \<rparr>"

definition getState :: "widget \<Rightarrow> nat \<Rightarrow> scannerState" where
  "getState w e = (case engines w e of Some (st, k) \<Rightarrow> st | None \<Rightarrow> UNKNOWN)"

definition setState :: "nat \<Rightarrow> scannerState \<Rightarrow> widget \<Rightarrow> widget" where
  "setState e st w =
    (case engines w e of Some (st0, k) \<Rightarrow> w\<lparr>engines := (engines w)(e \<mapsto> (st, k))\<rparr> | None \<Rightarrow> w)"

text \<open>\<open>state === SCANNING || state === PAUSED\<close>\<close>

definition running :: "scannerState \<Rightarrow> bool" where
  "running st = (st = SCANNING \<or> st = PAUSED)"

subsection \<open>safeCleanup (lines 37 to 65)\<close>

text \<open>The call up to its first await; \<open>None\<close> when it returns at once.\<close>

definition safeCleanup :: "widget \<Rightarrow> pc option \<times> widget" where
  "safeCleanup w =
    (case scanner w of
       None \<Rightarrow> (None, w)
     | Some e \<Rightarrow>
        if isCleaningUp w then (None, w)
        else (let w1 = w\<lparr>isCleaningUp := True\<rparr> in
              if running (getState w1 e) then (Some (CleanupStop e), w1)
              else (Some CleanupDelay, w1)))"

fun resumeCleanup :: "pc \<Rightarrow> outcome \<Rightarrow> widget \<Rightarrow> (pc option \<times> widget) option" where
  "resumeCleanup (CleanupStop e) StopResolved w = Some (Some CleanupDelay, setState e NOT_STARTED w)"
| "resumeCleanup (CleanupStop e) (StopRejected x) w = Some (Some CleanupDelay, w)"
| "resumeCleanup CleanupDelay Timeout w = Some (None, w\<lparr>scanner := None, isCleaningUp := False\<rparr>)"
| "resumeCleanup c r w = None"

subsection \<open>initScanner (lines 72 to 205)\<close>

text \<open>\<open>String.prototype.includes\<close>\<close>

definition includes_str :: "string \<Rightarrow> string \<Rightarrow> bool" where
  "includes_str s sub = sublist sub s"

definition permissionDenied :: string where
  "permissionDenied = ''Camera permission denied. Please allow camera access and refresh the page.''"

definition noCameraFound :: string where
  "noCameraFound =
     ''No camera found. Please ensure your device has a camera and try refreshing the page.''"

definition browserUnsupported :: string where
  "browserUnsupported = ''Camera not supported in this browser. Please try Chrome or Safari.''"

definition cameraInUse :: string where
  "cameraInUse = ''Camera is already in use by another application. ''
     @ ''Please close other camera apps and try again.''"

text \<open>Lines 185 to 194.\<close>

definition userFriendlyMessage :: "string \<Rightarrow> string" where
  "userFriendlyMessage errorMessage =
    (if includes_str errorMessage ''Permission'' \<or> includes_str errorMessage ''NotAllowedError''
     then permissionDenied
     else if includes_str errorMessage ''NotFoundError''
          \<or> includes_str errorMessage ''Requested device not found''
     then noCameraFound
     else if includes_str errorMessage ''NotSupportedError'' then browserUnsupported
     else if includes_str errorMessage ''NotReadableError'' then cameraInUse
     else errorMessage)"

text \<open>Line 181: \<open>err instanceof Error ? err.message : 'Failed to initialize QR scanner'\<close>.\<close>

definition errorMessageOf :: "thrown \<Rightarrow> string" where
  "errorMessageOf x =
    (case x of AnError e \<Rightarrow> message e | _ \<Rightarrow> ''Failed to initialize QR scanner'')"

text \<open>Lines 199 to 204.\<close>

definition finallyBlock :: "nat \<Rightarrow> widget \<Rightarrow> pc \<times> widget" where
  "finallyBlock k w =
    (Finished, if k = initializationAttempt w then w\<lparr>isInitializing' := False\<rparr> else w)"

text \<open>Lines 180 to 198, followed by the \<open>finally\<close> block.\<close>

definition catchBlock :: "nat \<Rightarrow> thrown \<Rightarrow> widget \<Rightarrow> pc \<times> widget" where
  "catchBlock k x w =
    (let m = userFriendlyMessage (errorMessageOf x) in
     finallyBlock k (w\<lparr>error := Some m,
       calls := calls w @ [(k, OnScannerInit False), (k, OnScanError m)]\<rparr>))"

text \<open>Lines 90 and 130: \<open>currentAttempt !== initializationAttempt.current || !isActive\<close>.\<close>

definition stale :: "nat \<Rightarrow> props \<Rightarrow> widget \<Rightarrow> bool" where
  "stale k p w = (k \<noteq> initializationAttempt w \<or> \<not> isActive p)"

text \<open>What \<open>scanner.current!.start\<close> throws when the ref is null.\<close>

definition nullStart :: thrown where
  "nullStart = AnError (JsError ''Cannot read properties of null (reading start)'')"

definition allOptionsFailed :: thrown where
  "allOptionsFailed = AnError (JsError ''All camera options failed'')"

text \<open>Line 177: \<open>lastError || new Error('All camera options failed')\<close>.\<close>

definition lastOrDefault :: "thrown option \<Rightarrow> thrown" where
  "lastOrDefault le =
    (case le of None \<Rightarrow> allOptionsFailed | Some Falsy \<Rightarrow> allOptionsFailed | Some x \<Rightarrow> x)"

text \<open>
  The head of the loop of line 128 at index \<open>i\<close>. With a null ref the call at line 137 throws
  inside the \<open>try\<close>, the catch block records the error and the loop goes on. After the loop,
  lines 176 to 178 throw \<open>lastError\<close> or, when it is null or falsy, the default error.
\<close>

function loopHead :: "nat \<Rightarrow> props \<Rightarrow> nat \<Rightarrow> thrown option \<Rightarrow> widget \<Rightarrow> pc \<times> widget" where
  "loopHead k p i le w =
    (if i < length cameraOptions
     then (if stale k p w then finallyBlock k w
           else (case scanner w of
               None \<Rightarrow> loopHead k p (i + 1) (Some nullStart) w
             | Some e \<Rightarrow> (Starting i e le,
                 w\<lparr>starts := starts w @ [(k, e, cameraConfig p i, min (fps p) 10)]\<rparr>)))
     else catchBlock k (lastOrDefault le) w)"
  by pat_completeness auto
termination
  by (relation "measure (\<lambda>(k, p, i, le, w). length cameraOptions - i)") auto

declare loopHead.simps [simp del]

text \<open>Lines 157 to 173: the catch block of one option, then the next iteration.\<close>

definition afterReject :: "nat \<Rightarrow> props \<Rightarrow> nat \<Rightarrow> thrown \<Rightarrow> widget \<Rightarrow> pc \<times> widget" where
  "afterReject k p i x w =
    (case scanner w of
       None \<Rightarrow> loopHead k p (i + 1) (Some x) w
     | Some e \<Rightarrow>
        if running (getState w e) then (FallbackStop i e x, w)
        else loopHead k p (i + 1) (Some x) w)"

definition containerNotFound :: thrown where
  "containerNotFound = AnError (JsError ''QR scanner container not found'')"

text \<open>Lines 89 to 126, after the 300 ms timer.\<close>

definition afterSettle :: "nat \<Rightarrow> props \<Rightarrow> widget \<Rightarrow> pc \<times> widget" where
  "afterSettle k p w =
    (if stale k p w then finallyBlock k w
     else if \<not> mounted w then catchBlock k containerNotFound w
     else (let e = nextEngine w;
               w1 = w\<lparr>engines := (engines w)(e \<mapsto> (NOT_STARTED, k)), nextEngine := e + 1,
                      scanner := Some e\<rparr>
           in loopHead k p 0 None w1))"

text \<open>Lines 73 to 87, when the timer of line 208 fires.\<close>

definition initScanner :: "nat \<Rightarrow> props \<Rightarrow> widget \<Rightarrow> pc \<times> widget" where
  "initScanner k p w =
    (if k \<noteq> initializationAttempt w then (Finished, w)
     else (let w1 = w\<lparr>isInitializing' := True, error := None\<rparr> in
           case safeCleanup w1 of
             (Some c, w2) \<Rightarrow> (c, w2)
           | (None, w2) \<Rightarrow> (Settling, w2)))"

fun resumeAttempt :: "nat \<Rightarrow> props \<Rightarrow> pc \<Rightarrow> outcome \<Rightarrow> widget \<Rightarrow> (pc \<times> widget) option" where
  "resumeAttempt k p Scheduled Timeout w = Some (initScanner k p w)"
| "resumeAttempt k p (CleanupStop e) r w =
    (case resumeCleanup (CleanupStop e) r w of
       None \<Rightarrow> None
     | Some (Some c, w') \<Rightarrow> Some (c, w')
     | Some (None, w') \<Rightarrow> Some (Settling, w'))"
| "resumeAttempt k p CleanupDelay r w =
    (case resumeCleanup CleanupDelay r w of
       None \<Rightarrow> None
     | Some (Some c, w') \<Rightarrow> Some (c, w')
     | Some (None, w') \<Rightarrow> Some (Settling, w'))"
| "resumeAttempt k p Settling Timeout w = Some (afterSettle k p w)"
| "resumeAttempt k p (Starting i e le) StartResolved w =
    Some (finallyBlock k
      ((setState e SCANNING w)\<lparr>calls := calls w @ [(k, OnScannerInit True)]\<rparr>))"
| "resumeAttempt k p (Starting i e le) (StartRejected x st) w =
    Some (afterReject k p i x (setState e st w))"
| "resumeAttempt k p (FallbackStop i e x) StopResolved w =
    Some (loopHead k p (i + 1) (Some x) (setState e NOT_STARTED w))"
| "resumeAttempt k p (FallbackStop i e x) (StopRejected y) w =
    Some (loopHead k p (i + 1) (Some x) w)"
| "resumeAttempt k p c r w = None"

subsection \<open>The effects and the engine's callbacks\<close>

text \<open>Lines 140 to 143: the success handler passed to \<open>start\<close>.\<close>

definition qrCodeSuccessCallback :: "string \<Rightarrow> decodedResult \<Rightarrow> callback list" where
  "qrCodeSuccessCallback decodedText decodedResult = [OnScanSuccess decodedText decodedResult]"

text \<open>Lines 68 to 70 and 208: the body of the first effect. The guard of line 68 is also the
  guard of the effect of part_001 (its line 35).\<close>

definition effect :: "props \<Rightarrow> widget \<Rightarrow> widget" where
  "effect p w =
    (if \<not> isActive p \<or> \<not> mounted w \<or> isInitializing' w \<or> isCleaningUp w then w
     else (let k = initializationAttempt w + 1 in
           w\<lparr>initializationAttempt := k, attempts := (attempts w)(k \<mapsto> (p, Scheduled))\<rparr>))"

text \<open>Lines 210 to 216: the function the effect of attempt \<open>k\<close> returned.\<close>

definition effectCleanup :: "nat \<Rightarrow> widget \<Rightarrow> widget" where
  "effectCleanup k w =
    (case attempts w k of
       None \<Rightarrow> w
     | Some (p, c) \<Rightarrow>
        (let w1 = (if c = Scheduled then w\<lparr>attempts := (attempts w)(k \<mapsto> (p, Cancelled))\<rparr> else w)
         in if k = initializationAttempt w1
            then w1\<lparr>initializationAttempt := initializationAttempt w1 + 1\<rparr>
            else w1))"

text \<open>
  What can happen to the widget. React runs \<open>Cleanup k\<close> before it runs the effect again and
  before \<open>Unmount\<close>; the model does not rely on that order. \<open>Unmount\<close> is the cleanup of the
  second effect, with the ref of the container already null. \<open>Decoded\<close> and \<open>DecodeFailed\<close> are
  the engine calling the two handlers passed to \<open>start\<close> at lines 140 to 149: the first forwards
  to \<open>onScanSuccess\<close>, the second only logs.
\<close>

datatype wevent =
    Effect props
  | Cleanup nat
  | Unmount
  | Wake nat outcome
  | WakeTeardown outcome
  | Decoded nat string decodedResult
  | DecodeFailed nat string

fun wstep :: "wevent \<Rightarrow> widget \<Rightarrow> widget" where
  "wstep (Effect p) w = effect p w"
| "wstep (Cleanup k) w = effectCleanup k w"
| "wstep Unmount w =
    (if \<not> mounted w then w
     else (let (c, w1) = safeCleanup (w\<lparr>mounted := False\<rparr>) in w1\<lparr>teardown := c\<rparr>))"
| "wstep (Wake k r) w =
    (case attempts w k of
       None \<Rightarrow> w
     | Some (p, c) \<Rightarrow>
        (case resumeAttempt k p c r w of
           None \<Rightarrow> w
         | Some (c', w') \<Rightarrow> w'\<lparr>attempts := (attempts w')(k \<mapsto> (p, c'))\<rparr>))"
| "wstep (WakeTeardown r) w =
    (case teardown w of
       None \<Rightarrow> w
     | Some c \<Rightarrow>
        (case resumeCleanup c r w of
           None \<Rightarrow> w
         | Some (c', w') \<Rightarrow> w'\<lparr>teardown := c'\<rparr>))"
| "wstep (Decoded e text res) w =
    (case engines w e of
       Some (SCANNING, k) \<Rightarrow>
         w\<lparr>calls := calls w @ map (Pair k) (qrCodeSuccessCallback text res)\<rparr>
     | _ \<Rightarrow> w)"
| "wstep (DecodeFailed e m) w = w"

definition wrun :: "wevent list \<Rightarrow> widget \<Rightarrow> widget" where
  "wrun evs w = foldl (\<lambda>w ev. wstep ev w) w evs"

subsection \<open>The paths through initScanner\<close>

text \<open>
  One rule for every path that a resumption of attempt \<open>k\<close> can take from one await to the next
  (or to the end of \<open>initScanner\<close>). \<open>lnext\<close> is the head of the loop of line 128: the next
  \<open>start\<close> call, the silent return of a stale attempt, or the catch block of line 180. The
  relations are derived from \<open>resumeAttempt\<close> and \<open>loopHead\<close> (lemmas \<open>astep_sound\<close> and
  \<open>loopHead_lnext\<close>) and serve the invariant proofs.
\<close>

inductive lnext :: "nat \<Rightarrow> props \<Rightarrow> nat \<Rightarrow> thrown option \<Rightarrow> widget \<Rightarrow> pc \<Rightarrow> widget \<Rightarrow> bool" where
  next_start: "\<lbrakk>scanner w = Some e; \<not> stale k p w; i < length cameraOptions\<rbrakk> \<Longrightarrow>
     lnext k p i le w (Starting i e le)
       (w\<lparr>starts := starts w @ [(k, e, cameraConfig p i, min (fps p) 10)]\<rparr>)"
| next_stale: "stale k p w \<Longrightarrow> lnext k p i le w Finished (snd (finallyBlock k w))"
| next_error: "lnext k p i le w Finished (snd (catchBlock k x w))"

inductive astep :: "nat \<Rightarrow> props \<Rightarrow> pc \<Rightarrow> widget \<Rightarrow> pc \<Rightarrow> widget \<Rightarrow> bool" where
  skip: "k \<noteq> initializationAttempt w \<Longrightarrow> astep k p Scheduled w Finished w"
| begin_settle: "\<lbrakk>k = initializationAttempt w; scanner w = None \<or> isCleaningUp w\<rbrakk> \<Longrightarrow>
     astep k p Scheduled w Settling (w\<lparr>isInitializing' := True, error := None\<rparr>)"
| begin_stop: "\<lbrakk>k = initializationAttempt w; scanner w = Some e; \<not> isCleaningUp w;
      running (getState w e)\<rbrakk> \<Longrightarrow>
     astep k p Scheduled w (CleanupStop e)
       (w\<lparr>isInitializing' := True, error := None, isCleaningUp := True\<rparr>)"
| begin_delay: "\<lbrakk>k = initializationAttempt w; scanner w = Some e; \<not> isCleaningUp w;
      \<not> running (getState w e)\<rbrakk> \<Longrightarrow>
     astep k p Scheduled w CleanupDelay
       (w\<lparr>isInitializing' := True, error := None, isCleaningUp := True\<rparr>)"
| stop_resolved: "astep k p (CleanupStop e) w CleanupDelay (setState e NOT_STARTED w)"
| stop_rejected: "astep k p (CleanupStop e) w CleanupDelay w"
| cleaned: "astep k p CleanupDelay w Settling (w\<lparr>scanner := None, isCleaningUp := False\<rparr>)"
| settle_stale: "stale k p w \<Longrightarrow> astep k p Settling w Finished (snd (finallyBlock k w))"
| settle_unmounted: "\<lbrakk>\<not> stale k p w; \<not> mounted w\<rbrakk> \<Longrightarrow>
     astep k p Settling w Finished (snd (catchBlock k containerNotFound w))"
| settle_create: "\<lbrakk>\<not> stale k p w; mounted w; e = nextEngine w\<rbrakk> \<Longrightarrow>
     astep k p Settling w (Starting 0 e None)
       (w\<lparr>engines := (engines w)(e \<mapsto> (NOT_STARTED, k)), nextEngine := e + 1,
          scanner := Some e,
          starts := starts w @ [(k, e, cameraConfig p 0, min (fps p) 10)]\<rparr>)"
| started: "astep k p (Starting i e le) w Finished
     (snd (finallyBlock k ((setState e SCANNING w)\<lparr>calls := calls w @ [(k, OnScannerInit True)]\<rparr>)))"
| rejected_stop: "\<lbrakk>scanner w = Some e'; running (getState (setState e st w) e')\<rbrakk> \<Longrightarrow>
     astep k p (Starting i e le) w (FallbackStop i e' x) (setState e st w)"
| rejected_next: "\<lbrakk>scanner w = None \<or> (\<exists>e'. scanner w = Some e' \<and> \<not> running (getState (setState e st w) e'));
      lnext k p (Suc i) (Some x) (setState e st w) c' w'\<rbrakk> \<Longrightarrow>
     astep k p (Starting i e le) w c' w'"
| fallback_stopped: "lnext k p (Suc i) (Some x) (setState e NOT_STARTED w) c' w' \<Longrightarrow>
     astep k p (FallbackStop i e x) w c' w'"
| fallback_stop_rejected: "lnext k p (Suc i) (Some x) w c' w' \<Longrightarrow>
     astep k p (FallbackStop i e x) w c' w'"

subsection \<open>Invariants of the widget\<close>

text \<open>The calls of \<open>onScannerInit\<close> that attempt \<open>k\<close> has made.\<close>

fun isInit :: "callback \<Rightarrow> bool" where
  "isInit (OnScannerInit b) = True"
| "isInit c = False"

definition initCalls :: "nat \<Rightarrow> (nat \<times> callback) list \<Rightarrow> (nat \<times> callback) list" where
  "initCalls k cs = filter (\<lambda>jc. fst jc = k \<and> isInit (snd jc)) cs"

text \<open>An attempt is in flight from the moment its timer has fired until \<open>initScanner\<close> returns;
  it is in the loop while it waits for a \<open>start\<close> or for the \<open>stop\<close> of line 167.\<close>

fun inflight :: "pc \<Rightarrow> bool" where
  "inflight Scheduled = False"
| "inflight Cancelled = False"
| "inflight Finished = False"
| "inflight c = True"

fun inloop :: "pc \<Rightarrow> bool" where
  "inloop (Starting i e le) = True"
| "inloop (FallbackStop i e x) = True"
| "inloop c = False"

text \<open>
  \<open>winv\<close>: attempts are numbered up to the counter; an attempt has called \<open>onScannerInit\<close> only
  if it has finished, and at most once; at most one attempt is in flight, and then the
  \<open>isInitializing\<close> state is set and every attempt still scheduled is outdated.
\<close>

definition winv :: "widget \<Rightarrow> bool" where
  "winv w \<longleftrightarrow>
     (\<forall>k. initializationAttempt w < k \<longrightarrow> attempts w k = None) \<and>
     (\<forall>k. initCalls k (calls w) \<noteq> [] \<longrightarrow> (\<exists>p. attempts w k = Some (p, Finished))) \<and>
     (\<forall>k. length (initCalls k (calls w)) \<le> 1) \<and>
     (\<forall>j k p q c d. attempts w j = Some (p, c) \<longrightarrow> attempts w k = Some (q, d) \<longrightarrow>
        inflight c \<longrightarrow> inflight d \<longrightarrow> j = k) \<and>
     (\<forall>k p c. attempts w k = Some (p, c) \<longrightarrow> inflight c \<longrightarrow> isInitializing' w) \<and>
     (\<forall>j k p q c. attempts w j = Some (p, c) \<longrightarrow> inflight c \<longrightarrow>
        attempts w k = Some (q, Scheduled) \<longrightarrow> k \<noteq> initializationAttempt w)"

text \<open>\<open>einv\<close>: engines are numbered below \<open>nextEngine\<close>; the engine an attempt starts, and the
  engine the ref holds while an attempt is in the loop, was created by that attempt.\<close>

definition einv :: "widget \<Rightarrow> bool" where
  "einv w \<longleftrightarrow>
     (\<forall>e. nextEngine w \<le> e \<longrightarrow> engines w e = None) \<and>
     (\<forall>k p i e le. attempts w k = Some (p, Starting i e le) \<longrightarrow> (\<exists>st. engines w e = Some (st, k))) \<and>
     (\<forall>k p c e. attempts w k = Some (p, c) \<longrightarrow> inloop c \<longrightarrow> scanner w = Some e \<longrightarrow>
        (\<exists>st. engines w e = Some (st, k)))"

subsection \<open>A run of start failures\<close>

text \<open>
  \<open>looping k p i e le w\<close>: attempt \<open>k\<close>, current and active, awaits the \<open>start\<close> of option \<open>i\<close> on
  the engine that the ref holds. \<open>rejectEvents k (x, st, so)\<close> are the events of one failed
  option: \<open>start\<close> rejects with \<open>x\<close> and leaves the engine in state \<open>st\<close>; if that state is
  scanning or paused the code awaits \<open>stop()\<close>, which settles as \<open>so\<close>.
\<close>

fun isStop :: "outcome \<Rightarrow> bool" where
  "isStop StopResolved = True"
| "isStop (StopRejected x) = True"
| "isStop r = False"

definition rejectEvents :: "nat \<Rightarrow> thrown \<times> scannerState \<times> outcome \<Rightarrow> wevent list" where
  "rejectEvents k f =
    (case f of (x, st, so) \<Rightarrow>
       Wake k (StartRejected x st) # (if running st then [Wake k so] else []))"

definition stopsOk :: "thrown \<times> scannerState \<times> outcome \<Rightarrow> bool" where
  "stopsOk f = isStop (snd (snd f))"

definition looping :: "nat \<Rightarrow> props \<Rightarrow> nat \<Rightarrow> nat \<Rightarrow> thrown option \<Rightarrow> widget \<Rightarrow> bool" where
  "looping k p i e le w \<longleftrightarrow>
     attempts w k = Some (p, Starting i e le) \<and> k = initializationAttempt w \<and> isActive p \<and>
     scanner w = Some e \<and> (\<exists>st. engines w e = Some (st, k))"

subsection \<open>Engines that hold the camera\<close>

text \<open>The engine an attempt is waiting on, and whether the attempt is inside \<open>safeCleanup\<close>.\<close>

fun engineOf :: "pc \<Rightarrow> nat option" where
  "engineOf (CleanupStop e) = Some e"
| "engineOf (Starting i e le) = Some e"
| "engineOf (FallbackStop i e x) = Some e"
| "engineOf c = None"

fun incleanup :: "pc \<Rightarrow> bool" where
  "incleanup (CleanupStop e) = True"
| "incleanup CleanupDelay = True"
| "incleanup c = False"

text \<open>Engine \<open>e\<close> is the one created last.\<close>

definition latest :: "widget \<Rightarrow> nat \<Rightarrow> bool" where
  "latest w e \<longleftrightarrow> Suc e = nextEngine w"

text \<open>
  \<open>binv\<close>: only the engine created last can be scanning or paused, and it is the only engine that
  the ref, an attempt or the unmount cleanup refers to. While the component is mounted, a scanning
  engine is the one in the ref; the ref is null while an attempt waits for the settling delay;
  nothing scans while an attempt waits for the delay of \<open>safeCleanup\<close>; the flag \<open>isCleaningUp\<close> is
  set only while an attempt is inside \<open>safeCleanup\<close>. \<open>binv1 c\<close> is the same statement when the
  only attempt in flight is at \<open>c\<close>.
\<close>

definition binv :: "widget \<Rightarrow> bool" where
  "binv w \<longleftrightarrow>
     (\<forall>e. running (getState w e) \<longrightarrow> latest w e) \<and>
     (\<forall>k p c e. attempts w k = Some (p, c) \<longrightarrow> engineOf c = Some e \<longrightarrow> latest w e) \<and>
     (\<forall>e. teardown w = Some (CleanupStop e) \<longrightarrow> latest w e) \<and>
     (\<forall>e. scanner w = Some e \<longrightarrow> latest w e) \<and>
     (mounted w \<longrightarrow>
        (\<forall>e. running (getState w e) \<longrightarrow> scanner w = Some e) \<and>
        (\<forall>k p. attempts w k = Some (p, Settling) \<longrightarrow> scanner w = None) \<and>
        (\<forall>k p. attempts w k = Some (p, CleanupDelay) \<longrightarrow> (\<forall>e. \<not> running (getState w e))) \<and>
        (\<forall>k p c e. attempts w k = Some (p, c) \<longrightarrow> engineOf c = Some e \<longrightarrow> scanner w = Some e) \<and>
        (isCleaningUp w \<longrightarrow> (\<exists>k p c. attempts w k = Some (p, c) \<and> incleanup c)) \<and>
        teardown w = None)"

definition binv1 :: "pc \<Rightarrow> widget \<Rightarrow> bool" where
  "binv1 c w \<longleftrightarrow>
     (\<forall>e. running (getState w e) \<longrightarrow> latest w e) \<and>
     (\<forall>e. engineOf c = Some e \<longrightarrow> latest w e) \<and>
     (\<forall>e. teardown w = Some (CleanupStop e) \<longrightarrow> latest w e) \<and>
     (\<forall>e. scanner w = Some e \<longrightarrow> latest w e) \<and>
     (mounted w \<longrightarrow>
        (\<forall>e. running (getState w e) \<longrightarrow> scanner w = Some e) \<and>
        (c = Settling \<longrightarrow> scanner w = None) \<and>
        (c = CleanupDelay \<longrightarrow> (\<forall>e. \<not> running (getState w e))) \<and>
        (\<forall>e. engineOf c = Some e \<longrightarrow> scanner w = Some e) \<and>
        (isCleaningUp w \<longrightarrow> incleanup c) \<and>
        teardown w = None)"

text \<open>
  The engine is the library's. \<open>safeCleanup\<close> calls \<open>stop()\<close> only on an engine that reports
  itself scanning or paused (lines 42 to 46) and logs a rejection as expected if not running
  (line 48). \<open>stopsHonoured evs w\<close> says that in the run of \<open>evs\<close> from \<open>w\<close> the library never
  rejects such a \<open>stop()\<close> awaited by an attempt; rejections of \<open>start\<close>, of the \<open>stop()\<close> of
  line 167 and of the \<open>stop()\<close> of the unmount cleanup are not restricted.
\<close>

fun stopHonoured :: "widget \<Rightarrow> wevent \<Rightarrow> bool" where
  "stopHonoured w (Wake k (StopRejected x)) =
    (case attempts w k of Some (p, CleanupStop e) \<Rightarrow> False | _ \<Rightarrow> True)"
| "stopHonoured w ev = True"

fun stopsHonoured :: "wevent list \<Rightarrow> widget \<Rightarrow> bool" where
  "stopsHonoured [] w = True"
| "stopsHonoured (ev # evs) w = (stopHonoured w ev \<and> stopsHonoured evs (wstep ev w))"

text \<open>
  \<open>blocked\<close>: \<open>isInitializing\<close> is set although no attempt is pending or in flight, and nothing
  has been started or reported.
\<close>

definition blocked :: "widget \<Rightarrow> bool" where
  "blocked w \<longleftrightarrow>
     isInitializing' w \<and> starts w = [] \<and> calls w = [] \<and> scanner w = None \<and> teardown w = None \<and>
     (\<forall>e. engines w e = None) \<and>
     (\<forall>k p c. attempts w k = Some (p, c) \<longrightarrow> c = Finished \<or> c = Cancelled)"
section \<open>The first revision of the scanner widget (quest-app/src/components/ui/QRScanner.tsx)\<close>

text \<open>
  This revision has no attempt counter. \<open>initScanner\<close> stops and clears a scanner it still
  holds, waits 100 ms, creates the engine and calls \<open>start\<close> with the preferred camera and, if
  that rejects, with \<open>{ ideal: preferredCamera }\<close>; one outer catch block reports a failure.
  The function below is one activation run to its end without interference, as the calls it
  makes on the props' callbacks: \<open>cleared\<close> is what \<open>clear()\<close> at line 41 threw, if a scanner
  was held and it threw; \<open>preferred\<close> and \<open>fallback\<close> are the outcomes of the two \<open>start\<close> calls
  (the second is only made when the first rejects).
\<close>

datatype startOutcome = StartOk | StartFailed thrown

definition noCameraBasic :: string where
  "noCameraBasic = ''No camera found. Please ensure your device has a camera.''"

definition accessBlocked :: string where
  "accessBlocked = ''Camera access blocked. Please check your browser settings.''"

text \<open>Lines 99 to 106.\<close>

definition userFriendlyMessageBasic :: "string \<Rightarrow> string" where
  "userFriendlyMessageBasic errorMessage =
    (if includes_str errorMessage ''Permission'' then permissionDenied
     else if includes_str errorMessage ''NotFoundError'' then noCameraBasic
     else if includes_str errorMessage ''NotAllowedError'' then accessBlocked
     else errorMessage)"

text \<open>Lines 94 to 109.\<close>

definition initFailedBasic :: "thrown \<Rightarrow> callback list" where
  "initFailedBasic x =
    (let m = userFriendlyMessageBasic (errorMessageOf x) in [OnScannerInit False, OnScanError m])"

definition initScannerBasic :: "thrown option \<Rightarrow> startOutcome \<Rightarrow> startOutcome \<Rightarrow> callback list" where
  "initScannerBasic cleared preferred fallback =
    (case cleared of
       Some x \<Rightarrow> initFailedBasic x
     | None \<Rightarrow>
        (case preferred of
           StartOk \<Rightarrow> [OnScannerInit True]
         | StartFailed y \<Rightarrow>
            (case fallback of
               StartOk \<Rightarrow> [OnScannerInit True]
             | StartFailed x \<Rightarrow> initFailedBasic x)))"

text \<open>The success handler of lines 63 to 66 and 84 to 87 is the closure of lines 140 to 143 of
  part_002, \<open>qrCodeSuccessCallback\<close>.\<close>

section \<open>Teardown, fallback order and concrete sessions\<close>

subsection \<open>A teardown run to its end\<close>

text \<open>
  \<open>safeCleanup\<close> from its call to its return, with the outcomes its awaits resolve to given in
  order. \<open>teardownRun so\<close> is one whole call: \<open>so\<close> is what \<open>stop()\<close> settles as (if it is
  called at all), followed by the 100 ms timer.
\<close>

fun cleanupRun :: "outcome list \<Rightarrow> pc option \<Rightarrow> widget \<Rightarrow> widget" where
  "cleanupRun rs None w = w"
| "cleanupRun [] (Some c) w = w"
| "cleanupRun (r # rs) (Some c) w =
    (case resumeCleanup c r w of
       None \<Rightarrow> cleanupRun rs (Some c) w
     | Some (c', w') \<Rightarrow> cleanupRun rs c' w')"

definition teardownRun :: "outcome \<Rightarrow> widget \<Rightarrow> widget" where
  "teardownRun so w = (case safeCleanup w of (c, w1) \<Rightarrow> cleanupRun [so, Timeout] c w1)"

subsection \<open>The cameras the fallback lists ask for\<close>

text \<open>The \<open>facingMode\<close> of an option of the manager; \<open>None\<close> when the option names no camera.\<close>

definition facingOf :: "constraints \<Rightarrow> facingMode option" where
  "facingOf c = (case c of VideoTrue \<Rightarrow> None | VideoSpec f w h r \<Rightarrow> f)"

text \<open>What the widget of part_002 passes to \<open>start\<close>, option by option (line 138).\<close>

definition widgetOptions :: "props \<Rightarrow> facingMode option list" where
  "widgetOptions p = map (\<lambda>i. Some (cameraConfig p i)) [0 ..< length cameraOptions]"

fun cameraName :: "facingMode \<Rightarrow> string" where
  "cameraName (Facing c) = c"
| "cameraName (FacingIdeal c) = c"
| "cameraName (FacingExact c) = c"

text \<open>
  The order as the specification words it, for comparison with the lists of the code: the list
  begins with a rear (\<open>environment\<close>) camera, is progressively relaxed (a rear camera before any
  other named camera, a named camera before none) and ends with an option that names no camera.
\<close>

definition relaxation :: "facingMode option \<Rightarrow> nat" where
  "relaxation f = (case f of None \<Rightarrow> 2 | Some m \<Rightarrow> if cameraName m = ''environment'' then 0 else 1)"

definition specFallbackOrder :: "facingMode option list \<Rightarrow> bool" where
  "specFallbackOrder fs \<longleftrightarrow>
     fs \<noteq> [] \<and> relaxation (hd fs) = 0 \<and> sorted (map relaxation fs) \<and> last fs = None"

subsection \<open>Concrete sessions of the widget\<close>

text \<open>The defaults of lines 17 to 26 with \<open>isActive\<close> set.\<close>

definition defaultProps :: props where
  "defaultProps = \<lparr> isActive = True, fps = 10, qrbox = None, preferredCamera = ''environment'' \<rparr>"

definition abc123 :: decodedResult where
  "abc123 = DecodedResult ''ABC123'' ''QR_CODE''"

definition permissionError :: thrown where
  "permissionError = AnError (JsError ''Permission denied'')"

text \<open>Activation; the 200 ms and the 300 ms timers fire; attempt 1 awaits \<open>start\<close> of option 0.\<close>

definition toFirstStart :: "wevent list" where
  "toFirstStart = [Effect defaultProps, Wake 1 Timeout, Wake 1 Timeout]"

text \<open>The effect's cleanup invalidates attempt 1 while its \<open>start\<close> is pending; then \<open>start\<close>
  resolves.\<close>

definition supersededThenStarted :: "wevent list" where
  "supersededThenStarted = toFirstStart @ [Cleanup 1, Wake 1 StartResolved]"

text \<open>Four options are rejected, the cleanup invalidates attempt 1 while the \<open>start\<close> of the
  fifth is pending, and the fifth is rejected too.\<close>

definition supersededThenFailed :: "wevent list" where
  "supersededThenFailed = toFirstStart @
     [Wake 1 (StartRejected permissionError NOT_STARTED),
      Wake 1 (StartRejected permissionError NOT_STARTED),
      Wake 1 (StartRejected permissionError NOT_STARTED),
      Wake 1 (StartRejected permissionError NOT_STARTED),
      Cleanup 1,
      Wake 1 (StartRejected permissionError NOT_STARTED)]"


definition twoRejections :: "(thrown \<times> scannerState \<times> outcome) list" where
  "twoRejections =
    [(permissionError, NOT_STARTED, StopResolved), (permissionError, SCANNING, StopResolved)]"

definition twoFailures :: "resolution list" where
  "twoFailures = [GumRejected denied, GumResolved endedStream]"

text \<open>The first option has started: engine 0 is scanning.\<close>

definition scanningSession :: widget where
  "scanningSession = wrun (toFirstStart @ [Wake 1 StartResolved]) mountedWidget"

text \<open>The first option has started; the props change, and the second activation (attempt 3)
  stops engine 0, creates engine 1 and starts it.\<close>

definition restartedSession :: "wevent list" where
  "restartedSession = toFirstStart @ [Wake 1 StartResolved, Cleanup 1, Effect defaultProps,
     Wake 3 Timeout, Wake 3 StopResolved, Wake 3 Timeout, Wake 3 Timeout, Wake 3 StartResolved]"

text \<open>The same, but the \<open>stop()\<close> that the second activation awaits in \<open>safeCleanup\<close> is
  rejected.\<close>

definition stopRejectedSession :: "wevent list" where
  "stopRejectedSession = toFirstStart @ [Wake 1 StartResolved, Cleanup 1, Effect defaultProps,
     Wake 3 Timeout, Wake 3 (StopRejected permissionError), Wake 3 Timeout, Wake 3 Timeout,
     Wake 3 StartResolved]"

text \<open>Activation; the 200 ms timer fires and attempt 1 awaits the settling delay; a dependency of
  the effect changes, so its cleanup runs and the effect runs again; the delay ends.\<close>

definition supersededWhileSettling :: "wevent list" where
  "supersededWhileSettling =
    [Effect defaultProps, Wake 1 Timeout, Cleanup 1, Effect defaultProps, Wake 1 Timeout]"



section \<open>Properties of the camera stream manager\<close>

subsection \<open>Auxiliary facts\<close>

lemma run_Nil [simp]: "run opts [] w = w"
  by (simp add: run_def)

lemma run_Cons [simp]: "run opts (ev # evs) w = run opts evs (step opts ev w)"
  by (simp add: run_def)

lemma run_append: "run opts (xs @ ys) w = run opts ys (run opts xs w)"
  by (simp add: run_def)

lemma set_stopAll_aux:
  "set (fold (stopTrack sid) ts ot) = set ot - (\<lambda>t. (sid, trackId t)) ` set ts"
  by (induction ts arbitrary: ot) (auto simp: stopTrack_def)

lemma set_stopAll: "set (stopAll s ot) = set ot - set (handles s)"
  by (simp add: stopAll_def handles_def set_stopAll_aux)

lemma stopAll_empty: "set ot \<subseteq> set (handles s) \<Longrightarrow> stopAll s ot = []"
proof -
  assume "set ot \<subseteq> set (handles s)"
  then have "set (stopAll s ot) = {}" by (auto simp: set_stopAll)
  then show ?thesis by simp
qed

lemmas manager_defs = init_def getCameraStream_def fromLine16_def tryOption_def afterLoop_def
  failWith_def working_def getVideoTracks_def handles_def dropStream_def releaseCameraStream_def
  stopAll_def stopTrack_def Let_def

subsection \<open>The invariant holds in every reachable state\<close>

lemma inv_init: "inv (init b)"
  by (simp add: inv_def init_def)

lemma inv_release: "inv w \<Longrightarrow> inv (releaseCameraStream w)"
  by (auto simp: inv_def releaseCameraStream_def dropStream_def Let_def stopAll_empty
      split: option.splits)

lemma inv_call: "inv w \<Longrightarrow> inv (step opts Call w)"
  by (auto simp: inv_def getCameraStream_def fromLine16_def failWith_def Let_def
      split: option.splits if_splits)

lemma inv_resume:
  assumes "inv w" "tasks w k = Some t" "resume opts k t r w = Some (t', w')"
  shows "inv (w'\<lparr>tasks := (tasks w')(k \<mapsto> t')\<rparr>)"
proof (cases t)
  case Polling
  with assms show ?thesis
    by (cases r) (auto simp: inv_def fromLine16_def failWith_def Let_def
      split: option.splits if_splits)
next
  case Enumerating
  with assms show ?thesis
    by (cases r) (auto simp: inv_def failWith_def tryOption_def afterLoop_def
      split: option.splits if_splits)
next
  case (Requesting i le)
  with assms show ?thesis
    by (cases r) (auto simp: inv_def failWith_def tryOption_def afterLoop_def dropStream_def
      Let_def stopAll_empty split: option.splits if_splits)
qed (use assms in auto)

lemma inv_step: "inv w \<Longrightarrow> inv (step opts ev w)"
proof (cases ev)
  case Call
  then show "inv w \<Longrightarrow> inv (step opts ev w)" using inv_call by simp
next
  case Release
  then show "inv w \<Longrightarrow> inv (step opts ev w)" using inv_release by simp
next
  case (Resume k r)
  assume "inv w"
  then show "inv (step opts ev w)" using Resume inv_resume [of w k _ opts r]
    by (auto split: option.splits)
qed

lemma inv_run: "inv w \<Longrightarrow> inv (run opts evs w)"
  by (induction evs arbitrary: w) (simp_all add: inv_step)

lemma inv_reachable: "inv (run opts evs (init b))"
  by (simp add: inv_run inv_init)

lemma inv_openStreams: "inv w \<Longrightarrow> card (openStreams w) \<le> 1"
proof (cases "stream w")
  case None
  assume "inv w"
  with None show ?thesis by (simp add: inv_def openStreams_def)
next
  case (Some s)
  assume "inv w"
  with Some have "set (openTracks w) \<subseteq> set (handles s)" by (simp add: inv_def)
  then have "openStreams w \<subseteq> {streamId s}" by (auto simp: openStreams_def handles_def)
  then have "card (openStreams w) \<le> card {streamId s}" by (intro card_mono) auto
  then show ?thesis by simp
qed

subsection \<open>Single steps\<close>

lemma step_call_fresh:
  "stream w = None \<Longrightarrow> \<not> isInitializing w \<Longrightarrow> gumSupported w \<Longrightarrow>
   step opts Call w = w\<lparr>isInitializing := True, tasks := (tasks w)(nextTask w \<mapsto> Enumerating),
     nextTask := nextTask w + 1\<rparr>"
  by (simp add: getCameraStream_def fromLine16_def Let_def)

lemma step_enumerated:
  "tasks w k = Some Enumerating \<Longrightarrow> enumerated d \<Longrightarrow> opts \<noteq> [] \<Longrightarrow>
   step opts (Resume k d) w = w\<lparr>requests := requests w @ [(k, opts ! 0)],
     tasks := (tasks w)(k \<mapsto> Requesting 0 None)\<rparr>"
  by (cases d) (simp_all add: tryOption_def)

subsection \<open>Usage counting\<close>

text \<open>
  Claim C1 (every call that returns a stream, also one that waited for an acquisition in flight and
  reused its result, increments the usage count by one). The early \<open>return\<close> at line 13 leaves
  before \<open>usageCount++\<close> at line 123. In the schedule below both calls return the same live
  stream, the count is 1 and not 2, and a single release stops the stream that the second caller
  still holds.
\<close>

theorem waiter_returns_uncounted:
  "tasks (run constraintOptions waiterSchedule (init True)) 0 = Some (Returned liveStream) \<and>
   tasks (run constraintOptions waiterSchedule (init True)) 1 = Some (Returned liveStream) \<and>
   getCameraUsageCount (run constraintOptions waiterSchedule (init True)) = 1 \<and>
   stream (run constraintOptions (waiterSchedule @ [Release]) (init True)) = None \<and>
   openTracks (run constraintOptions (waiterSchedule @ [Release]) (init True)) = []"
  by (simp add: waiterSchedule_def liveStream_def constraintOptions_def getCameraUsageCount_def
      manager_defs)

subsection \<open>Calls during an acquisition in flight\<close>

text \<open>
  Claim C2 as stated (a caller that arrives during an acquisition in flight reuses its result and
  issues no hardware request of its own) fails when the acquisition in flight ends without a
  stream: task 0 has thrown, and task 1, which had been polling, has sent the sixth
  \<open>getUserMedia\<close> request, for the first option of the list.
\<close>

theorem waiter_requests_after_failure:
  "tasks (run constraintOptions failedFirstSchedule (init True)) 0
      = Some (Threw (accessFailed (allFailed (Some denied)))) \<and>
   tasks (run constraintOptions failedFirstSchedule (init True)) 1 = Some (Requesting 0 None) \<and>
   length (requests (run constraintOptions failedFirstSchedule (init True))) = 6 \<and>
   last (requests (run constraintOptions failedFirstSchedule (init True)))
      = (1, hd constraintOptions)"
  by (simp add: failedFirstSchedule_def constraintOptions_def manager_defs)

text \<open>
  Claim C2, amended. In every state reachable under cooperative interleaving: at most one
  hardware stream is open; at most one call is inside the acquisition block; while one is, a new
  call only starts polling; a polling caller whose timer fires keeps polling while the flag is
  set. Once the flag is clear, a polling caller whose timer fires returns the stream that is held,
  that very object and without a request, if one is held; if none is held (the acquisition in
  flight failed, or the stream was released meanwhile) it starts an acquisition of its own: in a
  browser that has \<open>getUserMedia\<close> it sets the flag, enumerates the devices and then requests
  the first option of the list.
\<close>

theorem one_acquisition_in_flight:
  "card (openStreams (run opts evs (init b))) \<le> 1 \<and>
   (\<forall>j k t u. tasks (run opts evs (init b)) j = Some t \<longrightarrow>
      tasks (run opts evs (init b)) k = Some u \<longrightarrow> acquiring t \<longrightarrow> acquiring u \<longrightarrow> j = k) \<and>
   (\<forall>k t. tasks (run opts evs (init b)) k = Some t \<longrightarrow> acquiring t \<longrightarrow>
      step opts Call (run opts evs (init b)) =
        (run opts evs (init b))\<lparr>tasks := (tasks (run opts evs (init b)))
             (nextTask (run opts evs (init b)) \<mapsto> Polling),
           nextTask := nextTask (run opts evs (init b)) + 1\<rparr>) \<and>
   (\<forall>k. tasks (run opts evs (init b)) k = Some Polling \<longrightarrow>
      (isInitializing (run opts evs (init b)) \<longrightarrow>
         step opts (Resume k TimerFired) (run opts evs (init b)) = run opts evs (init b)) \<and>
      (\<forall>s. \<not> isInitializing (run opts evs (init b)) \<longrightarrow>
         stream (run opts evs (init b)) = Some s \<longrightarrow>
         tasks (step opts (Resume k TimerFired) (run opts evs (init b))) k = Some (Returned s) \<and>
         stream (step opts (Resume k TimerFired) (run opts evs (init b))) = Some s \<and>
         requests (step opts (Resume k TimerFired) (run opts evs (init b)))
           = requests (run opts evs (init b)) \<and>
         openTracks (step opts (Resume k TimerFired) (run opts evs (init b)))
           = openTracks (run opts evs (init b)) \<and>
         \<not> isInitializing (step opts (Resume k TimerFired) (run opts evs (init b)))) \<and>
      (\<not> isInitializing (run opts evs (init b)) \<longrightarrow> stream (run opts evs (init b)) = None \<longrightarrow>
         gumSupported (run opts evs (init b)) \<longrightarrow>
         tasks (step opts (Resume k TimerFired) (run opts evs (init b))) k = Some Enumerating \<and>
         isInitializing (step opts (Resume k TimerFired) (run opts evs (init b))) \<and>
         requests (step opts (Resume k TimerFired) (run opts evs (init b)))
           = requests (run opts evs (init b)) \<and>
         (\<forall>d. enumerated d \<longrightarrow> opts \<noteq> [] \<longrightarrow>
            tasks (run opts [Resume k TimerFired, Resume k d] (run opts evs (init b))) k
              = Some (Requesting 0 None) \<and>
            requests (run opts [Resume k TimerFired, Resume k d] (run opts evs (init b)))
              = requests (run opts evs (init b)) @ [(k, opts ! 0)])))"
proof -
  define w where "w = run opts evs (init b)"
  have i: "inv w" unfolding w_def by (rule inv_reachable)
  have 1: "card (openStreams w) \<le> 1" using i by (rule inv_openStreams)
  have 2: "\<forall>j k t u. tasks w j = Some t \<longrightarrow> tasks w k = Some u \<longrightarrow>
      acquiring t \<longrightarrow> acquiring u \<longrightarrow> j = k" using i unfolding inv_def by blast
  have 3: "\<forall>k t. tasks w k = Some t \<longrightarrow> acquiring t \<longrightarrow>
      step opts Call w = w\<lparr>tasks := (tasks w)(nextTask w \<mapsto> Polling), nextTask := nextTask w + 1\<rparr>"
    using i by (auto simp: inv_def getCameraStream_def Let_def)
  have 4: "\<forall>k. tasks w k = Some Polling \<longrightarrow>
      (isInitializing w \<longrightarrow> step opts (Resume k TimerFired) w = w) \<and>
      (\<forall>s. \<not> isInitializing w \<longrightarrow> stream w = Some s \<longrightarrow>
         tasks (step opts (Resume k TimerFired) w) k = Some (Returned s) \<and>
         stream (step opts (Resume k TimerFired) w) = Some s \<and>
         requests (step opts (Resume k TimerFired) w) = requests w \<and>
         openTracks (step opts (Resume k TimerFired) w) = openTracks w \<and>
         \<not> isInitializing (step opts (Resume k TimerFired) w))"
    by (auto simp: fun_upd_idem)
  have 5: "\<forall>k. tasks w k = Some Polling \<longrightarrow> \<not> isInitializing w \<longrightarrow> stream w = None \<longrightarrow>
      gumSupported w \<longrightarrow>
         tasks (step opts (Resume k TimerFired) w) k = Some Enumerating \<and>
         isInitializing (step opts (Resume k TimerFired) w) \<and>
         requests (step opts (Resume k TimerFired) w) = requests w \<and>
         (\<forall>d. enumerated d \<longrightarrow> opts \<noteq> [] \<longrightarrow>
            tasks (run opts [Resume k TimerFired, Resume k d] w) k = Some (Requesting 0 None) \<and>
            requests (run opts [Resume k TimerFired, Resume k d] w) = requests w @ [(k, opts ! 0)])"
  proof (intro allI impI)
    fix k assume p: "tasks w k = Some Polling" and h: "\<not> isInitializing w" "stream w = None"
      "gumSupported w"
    define w1 where "w1 = step opts (Resume k TimerFired) w"
    have w1: "w1 = w\<lparr>isInitializing := True, tasks := (tasks w)(k \<mapsto> Enumerating)\<rparr>"
      unfolding w1_def using p h by (simp add: fromLine16_def Let_def)
    have e: "tasks w1 k = Some Enumerating" by (simp add: w1)
    have "\<forall>d. enumerated d \<longrightarrow> opts \<noteq> [] \<longrightarrow>
            tasks (step opts (Resume k d) w1) k = Some (Requesting 0 None) \<and>
            requests (step opts (Resume k d) w1) = requests w @ [(k, opts ! 0)]"
    proof (intro allI impI)
      fix d assume d: "enumerated d" "opts \<noteq> []"
      from step_enumerated [OF e d] show "tasks (step opts (Resume k d) w1) k = Some (Requesting 0 None) \<and>
            requests (step opts (Resume k d) w1) = requests w @ [(k, opts ! 0)]"
        by (simp add: w1)
    qed
    then show "tasks (step opts (Resume k TimerFired) w) k = Some Enumerating \<and>
         isInitializing (step opts (Resume k TimerFired) w) \<and>
         requests (step opts (Resume k TimerFired) w) = requests w \<and>
         (\<forall>d. enumerated d \<longrightarrow> opts \<noteq> [] \<longrightarrow>
            tasks (run opts [Resume k TimerFired, Resume k d] w) k = Some (Requesting 0 None) \<and>
            requests (run opts [Resume k TimerFired, Resume k d] w) = requests w @ [(k, opts ! 0)])"
      unfolding run_Cons run_Nil w1_def [symmetric] by (simp add: w1)
  qed
  show ?thesis using 1 2 3 4 5 unfolding w_def by blast
qed

text \<open>
  The theorem at three reachable states. In the schedule of C1, after its first three events
  task 0 is acquiring and task 1 polls under the flag; after its first four events the flag is
  clear, the live stream is held, and the timer of task 1 makes it return that stream. In the
  schedule in which every option of task 0 is rejected, after its first eight events the flag
  is clear and no stream is held: the timer of task 1 sends it into an acquisition of its own.
\<close>

theorem one_acquisition_in_flight_witness:
  "tasks (run constraintOptions (take 3 waiterSchedule) (init True)) 0 = Some (Requesting 0 None) \<and>
   acquiring (Requesting 0 None) \<and>
   tasks (run constraintOptions (take 3 waiterSchedule) (init True)) 1 = Some Polling \<and>
   isInitializing (run constraintOptions (take 3 waiterSchedule) (init True)) \<and>
   step constraintOptions (Resume 1 TimerFired) (run constraintOptions (take 3 waiterSchedule) (init True))
     = run constraintOptions (take 3 waiterSchedule) (init True) \<and>
   tasks (run constraintOptions (take 4 waiterSchedule) (init True)) 1 = Some Polling \<and>
   \<not> isInitializing (run constraintOptions (take 4 waiterSchedule) (init True)) \<and>
   stream (run constraintOptions (take 4 waiterSchedule) (init True)) = Some liveStream \<and>
   tasks (step constraintOptions (Resume 1 TimerFired)
      (run constraintOptions (take 4 waiterSchedule) (init True))) 1 = Some (Returned liveStream) \<and>
   card (openStreams (run constraintOptions (take 4 waiterSchedule) (init True))) \<le> 1 \<and>
   tasks (run constraintOptions (take 8 failedFirstSchedule) (init True)) 1 = Some Polling \<and>
   \<not> isInitializing (run constraintOptions (take 8 failedFirstSchedule) (init True)) \<and>
   stream (run constraintOptions (take 8 failedFirstSchedule) (init True)) = None \<and>
   tasks (step constraintOptions (Resume 1 TimerFired)
      (run constraintOptions (take 8 failedFirstSchedule) (init True))) 1 = Some Enumerating \<and>
   requests (run constraintOptions [Resume 1 TimerFired, Resume 1 (DevicesListed 1)]
      (run constraintOptions (take 8 failedFirstSchedule) (init True)))
     = requests (run constraintOptions (take 8 failedFirstSchedule) (init True))
         @ [(1, constraintOptions ! 0)]"
proof -
  define w3 where "w3 = run constraintOptions (take 3 waiterSchedule) (init True)"
  define w4 where "w4 = run constraintOptions (take 4 waiterSchedule) (init True)"
  define w8 where "w8 = run constraintOptions (take 8 failedFirstSchedule) (init True)"
  have a: "tasks w3 0 = Some (Requesting 0 None)" "tasks w3 1 = Some Polling" "isInitializing w3"
    by (simp_all add: w3_def waiterSchedule_def liveStream_def constraintOptions_def manager_defs)
  have b: "tasks w4 1 = Some Polling" "\<not> isInitializing w4" "stream w4 = Some liveStream"
    by (simp_all add: w4_def waiterSchedule_def liveStream_def constraintOptions_def manager_defs)
  have f: "tasks w8 1 = Some Polling" "\<not> isInitializing w8" "stream w8 = None" "gumSupported w8"
    by (simp_all add: w8_def failedFirstSchedule_def constraintOptions_def manager_defs)
  have g: "enumerated (DevicesListed 1)" "constraintOptions \<noteq> []" "acquiring (Requesting 0 None)"
    by (simp_all add: constraintOptions_def)
  note t3 = one_acquisition_in_flight [of constraintOptions "take 3 waiterSchedule" True,
      folded w3_def]
  note t4 = one_acquisition_in_flight [of constraintOptions "take 4 waiterSchedule" True,
      folded w4_def]
  note t8 = one_acquisition_in_flight [of constraintOptions "take 8 failedFirstSchedule" True,
      folded w8_def]
  have c: "step constraintOptions (Resume 1 TimerFired) w3 = w3" using t3 a by blast
  have d: "tasks (step constraintOptions (Resume 1 TimerFired) w4) 1 = Some (Returned liveStream)"
    using t4 b by blast
  have e: "card (openStreams w4) \<le> 1" using t4 by blast
  have h: "tasks (step constraintOptions (Resume 1 TimerFired) w8) 1 = Some Enumerating"
    using t8 f by blast
  have j: "requests (run constraintOptions [Resume 1 TimerFired, Resume 1 (DevicesListed 1)] w8)
     = requests w8 @ [(1, constraintOptions ! 0)]"
    using t8 f g by blast
  show ?thesis unfolding w3_def [symmetric] w4_def [symmetric] w8_def [symmetric]
    using a b c d e f g h j by (simp del: step.simps run_Cons run_Nil)
qed

subsection \<open>isStreamActive\<close>



subsection \<open>Exhausting the fallback list\<close>

lemma step_fail:
  assumes "tasks w k = Some (Requesting i le)" "stream w = None" "fails r"
  shows "step opts (Resume k r) w =
     (let w1 = w\<lparr>openTracks := (case r of GumResolved s \<Rightarrow> stopAll s (openTracks w @ handles s)
                    | _ \<Rightarrow> openTracks w)\<rparr>;
          le' = lastError le [r]
      in if i + 1 < length opts
         then w1\<lparr>requests := requests w @ [(k, opts ! (i + 1))],
                 tasks := (tasks w)(k \<mapsto> Requesting (i + 1) le')\<rparr>
         else w1\<lparr>isInitializing := False,
                 tasks := (tasks w)(k \<mapsto> Threw (accessFailed (allFailed le')))\<rparr>)"
  using assms
  by (cases r) (simp_all add: Let_def dropStream_def tryOption_def afterLoop_def failWith_def)

lemma all_fail_from:
  "tasks w k = Some (Requesting i le) \<Longrightarrow> stream w = None \<Longrightarrow> rs \<noteq> [] \<Longrightarrow>
   i + length rs = length opts \<Longrightarrow> list_all fails rs \<Longrightarrow>
   tasks (run opts (map (Resume k) rs) w) k
     = Some (Threw (accessFailed (allFailed (lastError le rs)))) \<and>
   stream (run opts (map (Resume k) rs) w) = None \<and>
   usageCount (run opts (map (Resume k) rs) w) = usageCount w \<and>
   \<not> isInitializing (run opts (map (Resume k) rs) w) \<and>
   set (openTracks (run opts (map (Resume k) rs) w)) \<subseteq> set (openTracks w) \<and>
   requests (run opts (map (Resume k) rs) w)
     = requests w @ map (\<lambda>j. (k, opts ! j)) [i + 1 ..< length opts]"
proof (induction rs arbitrary: w i le)
  case Nil
  then show ?case by simp
next
  case (Cons r rs)
  let ?w = "step opts (Resume k r) w"
  have f: "fails r" and fs: "list_all fails rs" using Cons.prems by simp_all
  note st = step_fail [OF Cons.prems(1) Cons.prems(2) f, of opts]
  have sub: "set (openTracks ?w) \<subseteq> set (openTracks w)"
    unfolding st by (cases r) (auto simp: Let_def set_stopAll)
  show ?case
  proof (cases rs)
    case Nil
    with Cons.prems have "\<not> i + 1 < length opts" by simp
    with Nil sub show ?thesis
      using Cons.prems(2) st by (cases r) (auto simp: Let_def)
  next
    case (Cons r' rs')
    with Cons.prems have lt: "i + 1 < length opts" by simp
    have t: "tasks ?w k = Some (Requesting (i + 1) (lastError le [r]))"
      unfolding st using lt by (simp add: Let_def)
    have s: "stream ?w = None" unfolding st using Cons.prems(2) by (simp add: Let_def)
    have ne: "rs \<noteq> []" using Cons by simp
    have len: "(i + 1) + length rs = length opts" using Cons.prems by simp
    note ih = Cons.IH [OF t s ne len fs]
    have u: "usageCount ?w = usageCount w" unfolding st by (simp add: Let_def)
    have rq: "requests ?w = requests w @ [(k, opts ! (i + 1))]"
      unfolding st using lt by (simp add: Let_def)
    have le: "lastError (lastError le [r]) rs = lastError le (r # rs)" by (cases r) simp_all
    have up: "[i + 1 ..< length opts] = (i + 1) # [i + 1 + 1 ..< length opts]"
      using lt by (simp add: upt_conv_Cons)
    have run_eq: "run opts (map (Resume k) (r # rs)) w = run opts (map (Resume k) rs) ?w"
      by simp
    show ?thesis unfolding run_eq using ih sub u rq le up
      by (auto simp del: step.simps lastError.simps upt_Suc)
  qed
qed

text \<open>
  Claim C4. A call that finds no stream and no acquisition in flight, and whose every option
  fails (is rejected, or resolves with a stream that does not pass the liveness test), throws
  \<open>Camera access failed: All camera initialization attempts failed. Last error: m\<close>, where \<open>m\<close>
  is the message of the last rejection (\<open>Unknown error\<close> when there was none or it was empty).
  Afterwards no stream is held, the usage count and the flag are what they were, and no track
  is open that was not open before the call.
\<close>

theorem all_options_fail:
  assumes "stream w = None" "\<not> isInitializing w" "gumSupported w" "enumerated d"
    and "opts \<noteq> []" "length rs = length opts" "list_all fails rs"
  shows "tasks (run opts (Call # Resume (nextTask w) d # map (Resume (nextTask w)) rs) w) (nextTask w)
           = Some (Threw (accessFailed (allFailed (lastError None rs)))) \<and>
         (\<forall>e. lastError None rs = Some e \<longrightarrow> message e \<noteq> [] \<longrightarrow>
            accessFailed (allFailed (lastError None rs)) =
              ''Camera access failed: All camera initialization attempts failed. Last error: ''
                @ message e) \<and>
         stream (run opts (Call # Resume (nextTask w) d # map (Resume (nextTask w)) rs) w) = None \<and>
         usageCount (run opts (Call # Resume (nextTask w) d # map (Resume (nextTask w)) rs) w)
           = usageCount w \<and>
         \<not> isInitializing (run opts (Call # Resume (nextTask w) d # map (Resume (nextTask w)) rs) w) \<and>
         set (openTracks (run opts (Call # Resume (nextTask w) d # map (Resume (nextTask w)) rs) w))
           \<subseteq> set (openTracks w)"
proof -
  define k where "k = nextTask w"
  define w1 where "w1 = step opts Call w"
  define w2 where "w2 = step opts (Resume k d) w1"
  have w1: "w1 = w\<lparr>isInitializing := True, tasks := (tasks w)(k \<mapsto> Enumerating),
     nextTask := k + 1\<rparr>"
    unfolding w1_def k_def using assms(1-3) by (rule step_call_fresh)
  have "tasks w1 k = Some Enumerating" by (simp add: w1)
  then have w2: "w2 = w1\<lparr>requests := requests w1 @ [(k, opts ! 0)],
     tasks := (tasks w1)(k \<mapsto> Requesting 0 None)\<rparr>"
    unfolding w2_def using assms(4,5) by (rule step_enumerated)
  have t: "tasks w2 k = Some (Requesting 0 None)" by (simp add: w2)
  have s: "stream w2 = None" using assms(1) by (simp add: w2 w1)
  have ne: "rs \<noteq> []" using assms(5,6) by auto
  have len: "0 + length rs = length opts" using assms(6) by simp
  note main = all_fail_from [OF t s ne len assms(7)]
  have run_eq: "run opts (Call # Resume k d # map (Resume k) rs) w = run opts (map (Resume k) rs) w2"
    by (simp add: w2_def w1_def)
  have u: "usageCount w2 = usageCount w" and o: "openTracks w2 = openTracks w"
    by (simp_all add: w2 w1)
  have msg: "\<forall>e. lastError None rs = Some e \<longrightarrow> message e \<noteq> [] \<longrightarrow>
            accessFailed (allFailed (lastError None rs)) =
              ''Camera access failed: All camera initialization attempts failed. Last error: ''
                @ message e"
    by (simp add: accessFailed_def allFailed_def lastMessage_def)
  show ?thesis using main msg unfolding k_def [symmetric] run_eq u o by blast
qed

theorem all_options_fail_witness:
  "tasks (run constraintOptions (Call # Resume 0 (DevicesListed 1) # map (Resume 0) failingOutcomes)
      (init True)) 0
     = Some (Threw (''Camera access failed: All camera initialization attempts failed. Last error: ''
         @ ''Permission denied'')) \<and>
   stream (run constraintOptions (Call # Resume 0 (DevicesListed 1) # map (Resume 0) failingOutcomes)
      (init True)) = None \<and>
   usageCount (run constraintOptions (Call # Resume 0 (DevicesListed 1) # map (Resume 0) failingOutcomes)
      (init True)) = 0 \<and>
   openTracks (run constraintOptions (Call # Resume 0 (DevicesListed 1) # map (Resume 0) failingOutcomes)
      (init True)) = []"
proof -
  have h: "stream (init True) = None" "\<not> isInitializing (init True)" "gumSupported (init True)"
    "enumerated (DevicesListed 1)" "constraintOptions \<noteq> []"
    "length failingOutcomes = length constraintOptions" "list_all fails failingOutcomes"
    by (simp_all add: init_def constraintOptions_def failingOutcomes_def endedStream_def
        working_def getVideoTracks_def)
  have n: "nextTask (init True) = 0" "usageCount (init True) = 0" "openTracks (init True) = []"
    by (simp_all add: init_def)
  have l: "lastError None failingOutcomes = Some denied"
    by (simp add: failingOutcomes_def)
  have m: "accessFailed (allFailed (Some denied)) =
      ''Camera access failed: All camera initialization attempts failed. Last error: ''
        @ ''Permission denied''"
    by (simp add: accessFailed_def allFailed_def lastMessage_def denied_def)
  note t = all_options_fail [OF h, unfolded n l m]
  have e: "set xs \<subseteq> set [] \<Longrightarrow> xs = []" for xs :: "(nat \<times> nat) list" by simp
  show ?thesis using t e by blast
qed

subsection \<open>The test on a candidate stream\<close>

lemma working_live: "working s \<Longrightarrow> \<exists>v\<in>set (getTracks s). kind v = Video \<and> readyState v = Live"
proof -
  assume "working s"
  then obtain v vs where v: "getVideoTracks s = v # vs" "readyState v = Live"
    by (auto simp: working_def split: list.splits)
  then have "v \<in> set (getVideoTracks s)" by simp
  then have "v \<in> set (getTracks s) \<and> kind v = Video" by (simp add: getVideoTracks_def)
  with v show ?thesis by blast
qed

lemma not_working:
  "\<forall>v\<in>set (getTracks s). kind v = Video \<longrightarrow> readyState v \<noteq> Live \<Longrightarrow> \<not> working s"
  using working_live by blast

text \<open>
  Claim C5 as stated (for every option tried, a stream is accepted only if it has a live video
  track) fails on the two-step revision of part_003: its primary request resolves with a stream
  whose only video track has ended, and the call returns that stream and counts it.
\<close>

theorem two_step_accepts_ended_track:
  "tasks (run3 [Call, Resume 0 (GumResolved endedStream)] (init True)) 0
     = Some (Returned endedStream) \<and>
   stream (run3 [Call, Resume 0 (GumResolved endedStream)] (init True)) = Some endedStream \<and>
   usageCount (run3 [Call, Resume 0 (GumResolved endedStream)] (init True)) = 1 \<and>
   map readyState (getVideoTracks endedStream) = [Ended]"
  by (simp add: run3_def init_def getCameraStream3_def fromLine203_def endedStream_def handles_def
     getVideoTracks_def Let_def)

text \<open>
  Claim C5, amended. In the option loop of cameraStreamManager.ts (any option list, so both
  revisions of the file) a stream that resolves is accepted only if it passes the test of lines
  86 to 93, which implies a live video track; otherwise, and in particular when none of its
  video tracks is live, the call does not return it, the shared reference is cleared, none of
  its tracks stays open, and only then is the next option requested. The two-step revision has
  no liveness test: it accepts the primary stream exactly when it has a track, and the fallback
  stream always.
\<close>

theorem candidate_tested_and_stopped:
  "(resume opts k (Requesting i le) (GumResolved s) w = Some (t', w') \<longrightarrow>
     (working s \<longrightarrow> t' = Returned s \<and> stream w' = Some s \<and>
        (\<exists>v\<in>set (getTracks s). kind v = Video \<and> readyState v = Live)) \<and>
     (\<not> working s \<longrightarrow> (\<forall>s'. t' \<noteq> Returned s') \<and> stream w' = None \<and>
        set (openTracks w') \<inter> set (handles s) = {} \<and>
        (i + 1 < length opts \<longrightarrow> t' = Requesting (i + 1) le \<and>
           requests w' = requests w @ [(k, opts ! (i + 1))])) \<and>
     ((\<forall>v\<in>set (getTracks s). kind v = Video \<longrightarrow> readyState v \<noteq> Live) \<longrightarrow> \<not> working s)) \<and>
   (resume3 k (Requesting 0 None) (GumResolved s) w = Some (t', w') \<longrightarrow>
     (t' = Returned s \<longleftrightarrow> getTracks s \<noteq> [])) \<and>
   (resume3 k (Requesting 1 (Some e)) (GumResolved s) w = Some (t', w') \<longrightarrow> t' = Returned s)"
proof -
  have a: "resume opts k (Requesting i le) (GumResolved s) w = Some (t', w') \<Longrightarrow> working s \<Longrightarrow>
     t' = Returned s \<and> stream w' = Some s"
    by (auto simp: Let_def afterLoop_def)
  have b: "resume opts k (Requesting i le) (GumResolved s) w = Some (t', w') \<Longrightarrow> \<not> working s \<Longrightarrow>
     (\<forall>s'. t' \<noteq> Returned s') \<and> stream w' = None \<and> set (openTracks w') \<inter> set (handles s) = {} \<and>
        (i + 1 < length opts \<longrightarrow> t' = Requesting (i + 1) le \<and>
           requests w' = requests w @ [(k, opts ! (i + 1))])"
    by (auto simp: Let_def afterLoop_def tryOption_def dropStream_def failWith_def set_stopAll
        split: if_splits)
  have c: "resume3 k (Requesting 0 None) (GumResolved s) w = Some (t', w') \<Longrightarrow>
     (t' = Returned s \<longleftrightarrow> getTracks s \<noteq> [])"
    by (auto simp: Let_def split: if_splits)
  have d: "resume3 k (Requesting 1 (Some e)) (GumResolved s) w = Some (t', w') \<Longrightarrow> t' = Returned s"
    by auto
  show ?thesis using a b c d working_live not_working by blast
qed

text \<open>
  The theorem at three inputs: the ended stream is refused by the loop at option 0 of the first
  list, stopped, and option 1 is requested; the live stream is accepted; the two-step revision
  accepts the ended stream.
\<close>

theorem candidate_tested_and_stopped_witness:
  "\<not> working endedStream \<and> working liveStream \<and>
   fst (the (resume constraintOptions 0 (Requesting 0 None) (GumResolved endedStream) (init True)))
     = Requesting 1 None \<and>
   openTracks (snd (the (resume constraintOptions 0 (Requesting 0 None) (GumResolved endedStream)
     (init True)))) = [] \<and>
   fst (the (resume constraintOptions 0 (Requesting 0 None) (GumResolved liveStream) (init True)))
     = Returned liveStream \<and>
   fst (the (resume3 0 (Requesting 0 None) (GumResolved endedStream) (init True)))
     = Returned endedStream"
proof -
  define t1 where "t1 = fst (the (resume constraintOptions 0 (Requesting 0 None)
      (GumResolved endedStream) (init True)))"
  define w1 where "w1 = snd (the (resume constraintOptions 0 (Requesting 0 None)
      (GumResolved endedStream) (init True)))"
  define t2 where "t2 = fst (the (resume constraintOptions 0 (Requesting 0 None)
      (GumResolved liveStream) (init True)))"
  define w2 where "w2 = snd (the (resume constraintOptions 0 (Requesting 0 None)
      (GumResolved liveStream) (init True)))"
  define t3 where "t3 = fst (the (resume3 0 (Requesting 0 None)
      (GumResolved endedStream) (init True)))"
  define w3 where "w3 = snd (the (resume3 0 (Requesting 0 None)
      (GumResolved endedStream) (init True)))"
  have r1: "resume constraintOptions 0 (Requesting 0 None) (GumResolved endedStream)
      (init True) = Some (t1, w1)"
    by (simp add: t1_def w1_def Let_def)
  have r2: "resume constraintOptions 0 (Requesting 0 None) (GumResolved liveStream)
      (init True) = Some (t2, w2)"
    by (simp add: t2_def w2_def Let_def)
  have r3: "resume3 0 (Requesting 0 None) (GumResolved endedStream)
      (init True) = Some (t3, w3)"
    by (simp add: t3_def w3_def Let_def)
  have e: "\<not> working endedStream" "working liveStream" "getTracks endedStream \<noteq> []"
    "1 < length constraintOptions"
    by (simp_all add: working_def endedStream_def liveStream_def getVideoTracks_def
        constraintOptions_def)
  note a = candidate_tested_and_stopped [of constraintOptions 0 0 None endedStream "init True" t1 w1]
  note b = candidate_tested_and_stopped [of constraintOptions 0 0 None liveStream "init True" t2 w2]
  note c = candidate_tested_and_stopped [of _ 0 _ _ endedStream "init True" t3 w3]
  have a': "t1 = Requesting 1 None \<and> stream w1 = None \<and>
      set (openTracks w1) \<inter> set (handles endedStream) = {}"
    using a r1 e by simp
  have o: "openTracks w1 = []"
    using r1 e by (auto simp: Let_def init_def tryOption_def dropStream_def stopAll_empty
        constraintOptions_def split: if_splits)
  have b': "t2 = Returned liveStream" using b r2 e by simp
  have c': "t3 = Returned endedStream" using c r3 e by simp
  show ?thesis
    unfolding t1_def [symmetric] w1_def [symmetric] t2_def [symmetric] t3_def [symmetric]
    using a' b' c' o e by simp
qed

section \<open>Properties of the scanner widget\<close>

subsection \<open>Auxiliary facts\<close>

lemma wrun_Nil [simp]: "wrun [] w = w"
  by (simp add: wrun_def)

lemma wrun_Cons [simp]: "wrun (ev # evs) w = wrun evs (wstep ev w)"
  by (simp add: wrun_def)

lemma wrun_append: "wrun (xs @ ys) w = wrun ys (wrun xs w)"
  by (simp add: wrun_def)

lemma loopHead_cases:
  "loopHead k p i le w = (c', w') \<Longrightarrow>
     (\<exists>e. c' = Starting i e le \<and> scanner w = Some e \<and> \<not> stale k p w \<and> i < length cameraOptions \<and>
        w' = w\<lparr>starts := starts w @ [(k, e, cameraConfig p i, min (fps p) 10)]\<rparr>) \<or>
     (stale k p w \<and> finallyBlock k w = (c', w')) \<or>
     (\<exists>x. catchBlock k x w = (c', w'))"
proof (induction k p i le w rule: loopHead.induct)
  case (1 k p i le w)
  show ?case
  proof (cases "i < length cameraOptions \<and> \<not> stale k p w \<and> scanner w = None")
    case True
    then have "loopHead k p i le w = loopHead k p (i + 1) (Some nullStart) w"
      by (subst loopHead.simps) simp
    with "1.prems" have eq: "loopHead k p (i + 1) (Some nullStart) w = (c', w')" by simp
    from True have a: "i < length cameraOptions" and b: "\<not> stale k p w" and c: "scanner w = None"
      by simp_all
    note ih = "1.IH" [OF a b c eq]
    with c show ?thesis by auto
  next
    case False
    with "1.prems" show ?thesis
      by (subst (asm) loopHead.simps) (auto split: if_splits option.splits)
  qed
qed

lemma winv_init: "winv mountedWidget"
  by (simp add: winv_def mountedWidget_def initCalls_def)

lemma absent_no_init: "winv w \<Longrightarrow> attempts w k = None \<Longrightarrow> initCalls k (calls w) = []"
  unfolding winv_def by (metis option.distinct(1))

lemma unfinished_no_init:
  "winv w \<Longrightarrow> attempts w k = Some (p, c) \<Longrightarrow> c \<noteq> Finished \<Longrightarrow> initCalls k (calls w) = []"
  unfolding winv_def by (metis option.inject prod.inject)

lemma winv_effect: "winv w \<Longrightarrow> winv (effect p w)"
proof (cases "\<not> isActive p \<or> \<not> mounted w \<or> isInitializing' w \<or> isCleaningUp w")
  case True
  assume "winv w"
  with True show ?thesis by (simp add: effect_def)
next
  case False
  assume i: "winv w"
  define k where "k = initializationAttempt w + 1"
  have e: "effect p w = w\<lparr>initializationAttempt := k, attempts := (attempts w)(k \<mapsto> (p, Scheduled))\<rparr>"
    using False by (simp add: effect_def k_def)
  have none: "attempts w k = None" using i by (simp add: winv_def k_def)
  have noinit: "initCalls k (calls w) = []" using i none by (rule absent_no_init)
  have idle: "\<forall>j q c. attempts w j = Some (q, c) \<longrightarrow> \<not> inflight c"
    using i False unfolding winv_def by blast
  show ?thesis unfolding e using i none noinit idle
    unfolding winv_def by (auto simp: k_def)
qed

lemma scanner_setState [simp]: "scanner (setState e st w) = scanner w"
  by (simp add: setState_def split: option.splits)

lemma loopHead_lnext: "loopHead k p i le w = (c', w') \<Longrightarrow> lnext k p i le w c' w'"
proof -
  assume a: "loopHead k p i le w = (c', w')"
  from loopHead_cases [OF a] show ?thesis
  proof (elim disjE exE conjE)
    fix e assume "c' = Starting i e le" "scanner w = Some e" "\<not> stale k p w" "i < length cameraOptions"
      "w' = w\<lparr>starts := starts w @ [(k, e, cameraConfig p i, min (fps p) 10)]\<rparr>"
    then show ?thesis by (simp add: next_start)
  next
    assume "stale k p w" "finallyBlock k w = (c', w')"
    then have "c' = Finished" "w' = snd (finallyBlock k w)" "stale k p w"
      by (auto simp: finallyBlock_def)
    then show ?thesis by (simp add: next_stale)
  next
    fix x assume "catchBlock k x w = (c', w')"
    then have "c' = Finished" "w' = snd (catchBlock k x w)"
      by (auto simp: catchBlock_def finallyBlock_def Let_def)
    then show ?thesis by (simp add: next_error)
  qed
qed

lemma astep_sound: "resumeAttempt k p c r w = Some (c', w') \<Longrightarrow> astep k p c w c' w'"
proof (cases c)
  case Scheduled
  assume a: "resumeAttempt k p c r w = Some (c', w')"
  with Scheduled have r: "r = Timeout" by (cases r) simp_all
  from a Scheduled r show ?thesis
    by (auto simp: initScanner_def safeCleanup_def getState_def Let_def
        split: if_splits option.splits intro: astep.intros)
next
  case Cancelled
  assume "resumeAttempt k p c r w = Some (c', w')"
  with Cancelled show ?thesis by simp
next
  case (CleanupStop e)
  assume "resumeAttempt k p c r w = Some (c', w')"
  with CleanupStop show ?thesis by (cases r) (auto intro: astep.intros)
next
  case CleanupDelay
  assume "resumeAttempt k p c r w = Some (c', w')"
  with CleanupDelay show ?thesis by (cases r) (auto intro: astep.intros)
next
  case Settling
  assume a: "resumeAttempt k p c r w = Some (c', w')"
  with Settling have r: "r = Timeout" by (cases r) simp_all
  show ?thesis
  proof (cases "stale k p w \<or> \<not> mounted w")
    case True
    with a Settling r show ?thesis
      using settle_stale [of k p w] settle_unmounted [of k p w]
      by (auto simp: afterSettle_def finallyBlock_def catchBlock_def Let_def split: if_splits)
  next
    case False
    define w1 where "w1 = w\<lparr>engines := (engines w)(nextEngine w \<mapsto> (NOT_STARTED, k)),
       nextEngine := nextEngine w + 1, scanner := Some (nextEngine w)\<rparr>"
    have ns: "\<not> stale k p w1" using False by (simp add: stale_def w1_def)
    have "loopHead k p 0 None w1 = (Starting 0 (nextEngine w) None,
        w1\<lparr>starts := starts w1 @ [(k, nextEngine w, cameraConfig p 0, min (fps p) 10)]\<rparr>)"
      using ns by (subst loopHead.simps) (simp add: w1_def cameraOptions_def)
    with a Settling r False have "c' = Starting 0 (nextEngine w) None"
       "w' = w1\<lparr>starts := starts w1 @ [(k, nextEngine w, cameraConfig p 0, min (fps p) 10)]\<rparr>"
      by (simp_all add: afterSettle_def Let_def w1_def)
    then show ?thesis using False Settling settle_create [of k p w "nextEngine w"]
      by (simp add: w1_def)
  qed
next
  case (Starting i e le)
  assume a: "resumeAttempt k p c r w = Some (c', w')"
  show ?thesis
  proof (cases r)
    case StartResolved
    with a Starting show ?thesis using started [of k p i e le w] by (auto simp: finallyBlock_def)
  next
    case (StartRejected x st)
    with a Starting have b: "afterReject k p i x (setState e st w) = (c', w')" by simp
    show ?thesis
    proof (cases "\<exists>e'. scanner w = Some e' \<and> running (getState (setState e st w) e')")
      case True
      with b Starting show ?thesis by (auto simp: afterReject_def intro: rejected_stop)
    next
      case False
      with b have "loopHead k p (Suc i) (Some x) (setState e st w) = (c', w')"
        by (auto simp: afterReject_def split: option.splits if_splits)
      then have "lnext k p (Suc i) (Some x) (setState e st w) c' w'" by (rule loopHead_lnext)
      moreover have "scanner w = None \<or> (\<exists>e'. scanner w = Some e' \<and> \<not> running (getState (setState e st w) e'))"
        using False by (cases "scanner w") auto
      ultimately show ?thesis using Starting rejected_next by blast
    qed
  qed (use a Starting in simp_all)
next
  case (FallbackStop i e x)
  assume a: "resumeAttempt k p c r w = Some (c', w')"
  with FallbackStop show ?thesis
    by (cases r) (auto intro: fallback_stopped fallback_stop_rejected loopHead_lnext)
next
  case Finished
  assume "resumeAttempt k p c r w = Some (c', w')"
  with Finished show ?thesis by simp
qed

lemma setState_fields [simp]:
  "attempts (setState e st w) = attempts w"
  "calls (setState e st w) = calls w"
  "initializationAttempt (setState e st w) = initializationAttempt w"
  "isInitializing' (setState e st w) = isInitializing' w"
  "isCleaningUp (setState e st w) = isCleaningUp w"
  "mounted (setState e st w) = mounted w"
  "nextEngine (setState e st w) = nextEngine w"
  "teardown (setState e st w) = teardown w"
  "error (setState e st w) = error w"
  "starts (setState e st w) = starts w"
  by (simp_all add: setState_def split: option.splits)

lemma stale_setState [simp]: "stale k p (setState e st w) = stale k p w"
  by (simp add: stale_def)

lemma initCalls_append [simp]: "initCalls k (xs @ ys) = initCalls k xs @ initCalls k ys"
  by (simp add: initCalls_def)

lemma initCalls_simps [simp]:
  "initCalls k [] = []"
  "initCalls k ((j, OnScannerInit b) # xs) = (if j = k then (j, OnScannerInit b) # initCalls k xs else initCalls k xs)"
  "initCalls k ((j, OnScanError m) # xs) = initCalls k xs"
  "initCalls k ((j, OnScanSuccess t r) # xs) = initCalls k xs"
  by (simp_all add: initCalls_def)

text \<open>The part of the invariant that an attempt's own step can break, for a step that leaves
  the bookkeeping of attempts alone.\<close>

lemma winv_update:
  assumes i: "winv w" and a: "attempts w k = Some (p, c)"
    and at: "attempts w' = attempts w" and ia: "initializationAttempt w' = initializationAttempt w"
    and cl: "calls w' = calls w @ ext"
    and ex: "\<forall>j. j \<noteq> k \<longrightarrow> initCalls j ext = []"
    and ex1: "initCalls k ext \<noteq> [] \<longrightarrow> c' = Finished \<and> c \<noteq> Finished \<and> length (initCalls k ext) \<le> 1"
    and fin: "c = Finished \<longrightarrow> c' = Finished"
    and infl: "inflight c' \<longrightarrow> (inflight c \<or> (c = Scheduled \<and> k = initializationAttempt w)) \<and> isInitializing' w'"
    and sch: "c' = Scheduled \<longrightarrow> c = Scheduled"
    and ini: "isInitializing' w \<longrightarrow> \<not> isInitializing' w' \<longrightarrow> inflight c \<and> \<not> inflight c'"
  shows "winv (w'\<lparr>attempts := (attempts w')(k \<mapsto> (p, c'))\<rparr>)"
proof -
  have A1: "\<forall>j. initializationAttempt w < j \<longrightarrow> attempts w j = None"
    and A2: "\<forall>j. initCalls j (calls w) \<noteq> [] \<longrightarrow> (\<exists>q. attempts w j = Some (q, Finished))"
    and A3: "\<forall>j. length (initCalls j (calls w)) \<le> 1"
    and A4: "\<forall>j l q q' d d'. attempts w j = Some (q, d) \<longrightarrow> attempts w l = Some (q', d') \<longrightarrow>
        inflight d \<longrightarrow> inflight d' \<longrightarrow> j = l"
    and A5: "\<forall>j q d. attempts w j = Some (q, d) \<longrightarrow> inflight d \<longrightarrow> isInitializing' w"
    and A6: "\<forall>j l q q' d. attempts w j = Some (q, d) \<longrightarrow> inflight d \<longrightarrow>
        attempts w l = Some (q', Scheduled) \<longrightarrow> l \<noteq> initializationAttempt w"
    using i unfolding winv_def by blast+
  have kle: "k \<le> initializationAttempt w" using A1 a by (metis not_le option.distinct(1))
  have B1: "\<forall>j. initializationAttempt w < j \<longrightarrow> ((attempts w)(k \<mapsto> (p, c'))) j = None"
    using A1 kle by auto
  have B2: "\<forall>j. initCalls j (calls w @ ext) \<noteq> [] \<longrightarrow> (\<exists>q. ((attempts w)(k \<mapsto> (p, c'))) j = Some (q, Finished))"
  proof (intro allI impI)
    fix j assume n: "initCalls j (calls w @ ext) \<noteq> []"
    show "\<exists>q. ((attempts w)(k \<mapsto> (p, c'))) j = Some (q, Finished)"
    proof (cases "j = k")
      case True
      show ?thesis
      proof (cases "initCalls k ext = []")
        case True
        with n \<open>j = k\<close> have "initCalls k (calls w) \<noteq> []" by simp
        with A2 a have "c = Finished" by fastforce
        with fin \<open>j = k\<close> show ?thesis by simp
      next
        case False
        with ex1 \<open>j = k\<close> show ?thesis by simp
      qed
    next
      case False
      with ex n have "initCalls j (calls w) \<noteq> []" by simp
      with A2 False show ?thesis by simp
    qed
  qed
  have B3: "\<forall>j. length (initCalls j (calls w @ ext)) \<le> 1"
  proof
    fix j show "length (initCalls j (calls w @ ext)) \<le> 1"
    proof (cases "j = k \<and> initCalls k ext \<noteq> []")
      case True
      with ex1 have "c \<noteq> Finished" "length (initCalls k ext) \<le> 1" by simp_all
      moreover have "initCalls k (calls w) = []" using i a \<open>c \<noteq> Finished\<close> by (rule unfinished_no_init)
      ultimately show ?thesis using True by simp
    next
      case False
      then have "initCalls j ext = []" using ex by (cases "j = k") auto
      with A3 show ?thesis by simp
    qed
  qed
  have B4: "\<forall>j l q q' d d'. ((attempts w)(k \<mapsto> (p, c'))) j = Some (q, d) \<longrightarrow>
        ((attempts w)(k \<mapsto> (p, c'))) l = Some (q', d') \<longrightarrow> inflight d \<longrightarrow> inflight d' \<longrightarrow> j = l"
  proof (intro allI impI)
    fix j l q q' d d'
    assume h1: "((attempts w)(k \<mapsto> (p, c'))) j = Some (q, d)"
      and h2: "((attempts w)(k \<mapsto> (p, c'))) l = Some (q', d')" and h3: "inflight d" and h4: "inflight d'"
    consider "j = k" "l = k" | "j = k" "l \<noteq> k" | "j \<noteq> k" "l = k" | "j \<noteq> k" "l \<noteq> k"
      by blast
    then show "j = l"
    proof cases
      case 1
      then show ?thesis by simp
    next
      case 2
      with h1 h2 h3 h4 have c': "inflight c'" and l: "attempts w l = Some (q', d')" by auto
      from c' infl have "inflight c \<or> (c = Scheduled \<and> k = initializationAttempt w)" by simp
      then show ?thesis
      proof
        assume "inflight c" with A4 a l h4 have "k = l" by blast
        with \<open>l \<noteq> k\<close> show ?thesis by simp
      next
        assume "c = Scheduled \<and> k = initializationAttempt w"
        with A6 l h4 a have False by blast
        then show ?thesis ..
      qed
    next
      case 3
      with h1 h2 h3 h4 have c': "inflight c'" and l: "attempts w j = Some (q, d)" by auto
      from c' infl have "inflight c \<or> (c = Scheduled \<and> k = initializationAttempt w)" by simp
      then show ?thesis
      proof
        assume "inflight c" with A4 a l \<open>inflight d\<close> have "k = j" by blast
        with \<open>j \<noteq> k\<close> show ?thesis by simp
      next
        assume "c = Scheduled \<and> k = initializationAttempt w"
        with A6 l \<open>inflight d\<close> a have False by blast
        then show ?thesis ..
      qed
    next
      case 4
      with h1 h2 h3 h4 A4 show ?thesis by auto
    qed
  qed
  have B5: "\<forall>j q d. ((attempts w)(k \<mapsto> (p, c'))) j = Some (q, d) \<longrightarrow> inflight d \<longrightarrow> isInitializing' w'"
  proof (intro allI impI)
    fix j q d assume 1: "((attempts w)(k \<mapsto> (p, c'))) j = Some (q, d)" and 2: "inflight d"
    show "isInitializing' w'"
    proof (cases "j = k")
      case True with 1 2 infl show ?thesis by simp
    next
      case False
      with 1 have l: "attempts w j = Some (q, d)" by simp
      with A5 2 have ii: "isInitializing' w" by blast
      show ?thesis
      proof (rule ccontr)
        assume "\<not> isInitializing' w'"
        with ini ii have "inflight c" by blast
        with A4 a l 2 have "k = j" by blast
        with False show False by simp
      qed
    qed
  qed
  have B6: "\<forall>j l q q' d. ((attempts w)(k \<mapsto> (p, c'))) j = Some (q, d) \<longrightarrow> inflight d \<longrightarrow>
        ((attempts w)(k \<mapsto> (p, c'))) l = Some (q', Scheduled) \<longrightarrow> l \<noteq> initializationAttempt w"
  proof (intro allI impI)
    fix j l q q' d
    assume 1: "((attempts w)(k \<mapsto> (p, c'))) j = Some (q, d)" and 2: "inflight d"
      and 3: "((attempts w)(k \<mapsto> (p, c'))) l = Some (q', Scheduled)"
    show "l \<noteq> initializationAttempt w"
    proof (cases "l = k")
      case True
      with 3 sch have cs: "c = Scheduled" "c' = Scheduled" by auto
      with 1 2 True have j: "j \<noteq> k" "attempts w j = Some (q, d)" by (auto split: if_splits)
      with A6 2 a cs True show ?thesis by blast
    next
      case False
      with 3 have l: "attempts w l = Some (q', Scheduled)" by simp
      show ?thesis
      proof (cases "j = k")
        case True
        with 1 2 have "inflight c'" by simp
        with infl have "inflight c \<or> (c = Scheduled \<and> k = initializationAttempt w)" by simp
        then show ?thesis
        proof
          assume "inflight c" with A6 a l show ?thesis by blast
        next
          assume "c = Scheduled \<and> k = initializationAttempt w"
          with False show ?thesis by simp
        qed
      next
        case False
        with 1 have "attempts w j = Some (q, d)" by simp
        with A6 2 l show ?thesis by blast
      qed
    qed
  qed
  define w2 where "w2 = w'\<lparr>attempts := (attempts w')(k \<mapsto> (p, c'))\<rparr>"
  have f: "attempts w2 = (attempts w)(k \<mapsto> (p, c'))"
    "initializationAttempt w2 = initializationAttempt w"
    "calls w2 = calls w @ ext" "isInitializing' w2 = isInitializing' w'"
    by (simp_all add: w2_def at ia cl)
  have "winv w2" unfolding winv_def f by (intro conjI B1 B2 B3 B4 B5 B6)
  then show ?thesis by (simp add: w2_def)
qed

lemma lnext_frame:
  assumes "lnext k p i le w c' w'"
  shows "attempts w' = attempts w \<and> initializationAttempt w' = initializationAttempt w \<and>
     (\<exists>ext. calls w' = calls w @ ext \<and>
        (ext = [] \<or> (c' = Finished \<and> (\<exists>m. ext = [(k, OnScannerInit False), (k, OnScanError m)])))) \<and>
     (c' = Finished \<or> (\<exists>e. c' = Starting i e le) \<and> isInitializing' w' = isInitializing' w) \<and>
     (isInitializing' w' \<longrightarrow> isInitializing' w)"
  using assms
  by (cases rule: lnext.cases) (auto simp: finallyBlock_def catchBlock_def Let_def)

lemma astep_frame:
  assumes "astep k p c w c' w'"
  shows "attempts w' = attempts w \<and> initializationAttempt w' = initializationAttempt w \<and>
     (\<exists>ext. calls w' = calls w @ ext \<and>
        (ext = [] \<or> (c' = Finished \<and> (ext = [(k, OnScannerInit True)] \<or>
           (\<exists>m. ext = [(k, OnScannerInit False), (k, OnScanError m)]))))) \<and>
     c \<noteq> Finished \<and> c \<noteq> Cancelled \<and> c' \<noteq> Scheduled \<and> c' \<noteq> Cancelled \<and>
     (inflight c' \<longrightarrow> (inflight c \<and> isInitializing' w' = isInitializing' w) \<or>
        (c = Scheduled \<and> k = initializationAttempt w \<and> isInitializing' w')) \<and>
     (isInitializing' w \<longrightarrow> \<not> isInitializing' w' \<longrightarrow> inflight c \<and> \<not> inflight c')"
  using assms
proof (cases rule: astep.cases)
  case (rejected_next e st i x le)
  from lnext_frame [OF rejected_next(3)] rejected_next(1) show ?thesis by auto
next
  case (fallback_stopped i x e)
  from lnext_frame [OF fallback_stopped(2)] fallback_stopped(1) show ?thesis by auto
next
  case (fallback_stop_rejected i x e)
  from lnext_frame [OF fallback_stop_rejected(2)] fallback_stop_rejected(1) show ?thesis by auto
qed (auto simp: finallyBlock_def catchBlock_def Let_def)

lemma winv_astep:
  assumes i: "winv w" and a: "attempts w k = Some (p, c)" and s: "astep k p c w c' w'"
  shows "winv (w'\<lparr>attempts := (attempts w')(k \<mapsto> (p, c'))\<rparr>)"
proof -
  note f = astep_frame [OF s]
  from f obtain ext where ext: "calls w' = calls w @ ext"
     "ext = [] \<or> (c' = Finished \<and> (ext = [(k, OnScannerInit True)] \<or>
           (\<exists>m. ext = [(k, OnScannerInit False), (k, OnScanError m)])))" by blast
  have A5: "inflight c \<longrightarrow> isInitializing' w" using i a unfolding winv_def by blast
  show ?thesis
  proof (rule winv_update [OF i a _ _ ext(1)])
    show "attempts w' = attempts w" using f by simp
    show "initializationAttempt w' = initializationAttempt w" using f by simp
    show "\<forall>j. j \<noteq> k \<longrightarrow> initCalls j ext = []" using ext(2) by auto
    show "initCalls k ext \<noteq> [] \<longrightarrow> c' = Finished \<and> c \<noteq> Finished \<and> length (initCalls k ext) \<le> 1"
      using ext(2) f by auto
    show "c = Finished \<longrightarrow> c' = Finished" using f by simp
    show "inflight c' \<longrightarrow> (inflight c \<or> c = Scheduled \<and> k = initializationAttempt w) \<and> isInitializing' w'"
      using f A5 by auto
    show "c' = Scheduled \<longrightarrow> c = Scheduled" using f by simp
    show "isInitializing' w \<longrightarrow> \<not> isInitializing' w' \<longrightarrow> inflight c \<and> \<not> inflight c'" using f by simp
  qed
qed

lemma winv_wake: "winv w \<Longrightarrow> winv (wstep (Wake k r) w)"
proof -
  assume i: "winv w"
  show ?thesis
  proof (cases "attempts w k")
    case None
    with i show ?thesis by simp
  next
    case (Some pc)
    obtain p c where pc: "pc = (p, c)" by (cases pc)
    show ?thesis
    proof (cases "resumeAttempt k p c r w")
      case None
      with Some pc i show ?thesis by simp
    next
      case (Some cw)
      obtain c' w' where cw: "cw = (c', w')" by (cases cw)
      from Some cw have "astep k p c w c' w'" by (simp add: astep_sound)
      from winv_astep [OF i _ this] \<open>attempts w k = Some pc\<close> pc Some cw show ?thesis by simp
    qed
  qed
qed

lemma winv_cleanup: "winv w \<Longrightarrow> winv (effectCleanup k w)"
proof (cases "attempts w k")
  case None
  assume "winv w"
  with None show ?thesis by (simp add: effectCleanup_def)
next
  case (Some pc)
  assume i: "winv w"
  obtain p c where pc: "pc = (p, c)" by (cases pc)
  have A1: "\<forall>j. initializationAttempt w < j \<longrightarrow> attempts w j = None"
    and A2: "\<forall>j. initCalls j (calls w) \<noteq> [] \<longrightarrow> (\<exists>q. attempts w j = Some (q, Finished))"
    and A3: "\<forall>j. length (initCalls j (calls w)) \<le> 1"
    and A4: "\<forall>j l q q' d d'. attempts w j = Some (q, d) \<longrightarrow> attempts w l = Some (q', d') \<longrightarrow>
        inflight d \<longrightarrow> inflight d' \<longrightarrow> j = l"
    and A5: "\<forall>j q d. attempts w j = Some (q, d) \<longrightarrow> inflight d \<longrightarrow> isInitializing' w"
    and A6: "\<forall>j l q q' d. attempts w j = Some (q, d) \<longrightarrow> inflight d \<longrightarrow>
        attempts w l = Some (q', Scheduled) \<longrightarrow> l \<noteq> initializationAttempt w"
    using i unfolding winv_def by blast+
  define at where "at = (if c = Scheduled then (attempts w)(k \<mapsto> (p, Cancelled)) else attempts w)"
  define n where "n = (if k = initializationAttempt w then initializationAttempt w + 1
     else initializationAttempt w)"
  have e: "effectCleanup k w = w\<lparr>attempts := at, initializationAttempt := n\<rparr>"
    using Some pc by (simp add: effectCleanup_def at_def n_def Let_def)
  have at_cases: "at j = Some (q, d) \<Longrightarrow> attempts w j = Some (q, d) \<or> (j = k \<and> d = Cancelled \<and> c = Scheduled)" for j q d
    by (auto simp: at_def split: if_splits)
  have at_fin: "attempts w j = Some (q, Finished) \<Longrightarrow> at j = Some (q, Finished)" for j q
    using Some pc by (auto simp: at_def)
  have at_none: "attempts w j = None \<Longrightarrow> at j = None" for j
    using Some by (auto simp: at_def)
  have at_sched: "at j = Some (q, Scheduled) \<Longrightarrow> attempts w j = Some (q, Scheduled) \<and> j \<noteq> k" for j q
    using Some pc by (auto simp: at_def split: if_splits)
  have le: "attempts w j \<noteq> None \<Longrightarrow> j \<le> initializationAttempt w" for j
    using A1 by (metis not_le)
  have B1: "\<forall>j. n < j \<longrightarrow> at j = None" using A1 at_none by (auto simp: n_def)
  have B2: "\<forall>j. initCalls j (calls w) \<noteq> [] \<longrightarrow> (\<exists>q. at j = Some (q, Finished))"
    using A2 at_fin by blast
  have B4: "\<forall>j l q q' d d'. at j = Some (q, d) \<longrightarrow> at l = Some (q', d') \<longrightarrow>
        inflight d \<longrightarrow> inflight d' \<longrightarrow> j = l"
  proof (intro allI impI)
    fix j l q q' d d'
    assume "at j = Some (q, d)" "at l = Some (q', d')" "inflight d" "inflight d'"
    with at_cases [of j q d] at_cases [of l q' d'] have "attempts w j = Some (q, d)" "attempts w l = Some (q', d')"
      by auto
    with A4 \<open>inflight d\<close> \<open>inflight d'\<close> show "j = l" by blast
  qed
  have B5: "\<forall>j q d. at j = Some (q, d) \<longrightarrow> inflight d \<longrightarrow> isInitializing' w"
  proof (intro allI impI)
    fix j q d assume "at j = Some (q, d)" "inflight d"
    with at_cases [of j q d] have "attempts w j = Some (q, d)" by auto
    with A5 \<open>inflight d\<close> show "isInitializing' w" by blast
  qed
  have B6: "\<forall>j l q q' d. at j = Some (q, d) \<longrightarrow> inflight d \<longrightarrow>
        at l = Some (q', Scheduled) \<longrightarrow> l \<noteq> n"
  proof (intro allI impI)
    fix j l q q' d assume 1: "at j = Some (q, d)" "inflight d" and 2: "at l = Some (q', Scheduled)"
    from 1 at_cases [of j q d] have j: "attempts w j = Some (q, d)" by auto
    from 2 at_sched have l: "attempts w l = Some (q', Scheduled)" "l \<noteq> k" by auto
    from A6 j 1 l have "l \<noteq> initializationAttempt w" by blast
    moreover from l le [of l] have "l \<le> initializationAttempt w" by simp
    ultimately show "l \<noteq> n" by (simp add: n_def)
  qed
  define w2 where "w2 = w\<lparr>attempts := at, initializationAttempt := n\<rparr>"
  have f: "attempts w2 = at" "initializationAttempt w2 = n" "calls w2 = calls w"
    "isInitializing' w2 = isInitializing' w"
    by (simp_all add: w2_def)
  have "winv w2" unfolding winv_def f by (intro conjI B1 B2 A3 B4 B5 B6)
  then show ?thesis by (simp add: e w2_def)
qed

lemma winv_frame:
  "winv w \<Longrightarrow> attempts w' = attempts w \<Longrightarrow> initializationAttempt w' = initializationAttempt w \<Longrightarrow>
   isInitializing' w' = isInitializing' w \<Longrightarrow> (\<forall>k. initCalls k (calls w') = initCalls k (calls w)) \<Longrightarrow> winv w'"
  unfolding winv_def by simp

lemma resumeCleanup_frame:
  "resumeCleanup c r w = Some (c', w') \<Longrightarrow> attempts w' = attempts w \<and>
     initializationAttempt w' = initializationAttempt w \<and> isInitializing' w' = isInitializing' w \<and>
     calls w' = calls w"
  by (cases "(c, r, w)" rule: resumeCleanup.cases) auto

lemma winv_step: "winv w \<Longrightarrow> winv (wstep ev w)"
proof (cases ev)
  case (Effect p)
  assume "winv w" with Effect show ?thesis by (simp add: winv_effect)
next
  case (Cleanup k)
  assume "winv w" with Cleanup show ?thesis by (simp add: winv_cleanup)
next
  case Unmount
  assume "winv w"
  then show ?thesis unfolding Unmount
    by (rule winv_frame) (auto simp: safeCleanup_def Let_def split: option.splits)
next
  case (Wake k r)
  assume "winv w" then show ?thesis unfolding Wake by (rule winv_wake)
next
  case (WakeTeardown r)
  assume "winv w"
  then show ?thesis unfolding WakeTeardown
    by (rule winv_frame) (auto split: option.splits dest: resumeCleanup_frame)
next
  case (Decoded e t res)
  assume "winv w"
  then show ?thesis unfolding Decoded
    by (rule winv_frame) (auto simp: qrCodeSuccessCallback_def split: option.splits scannerState.splits)
next
  case (DecodeFailed e m)
  assume "winv w" with DecodeFailed show ?thesis by simp
qed

lemma winv_run: "winv w \<Longrightarrow> winv (wrun evs w)"
  by (induction evs arbitrary: w) (simp_all add: winv_step)

lemma winv_reachable: "winv (wrun evs mountedWidget)"
  by (simp add: winv_run winv_init)

lemma einv_init: "einv mountedWidget"
  by (simp add: einv_def mountedWidget_def)

lemma engines_setState:
  "engines (setState e st w) e' =
     (if e' = e then (case engines w e of Some (s0, k) \<Rightarrow> Some (st, k) | None \<Rightarrow> None) else engines w e')"
  by (simp add: setState_def split: option.splits)

lemma owner_setState:
  "(\<exists>s. engines (setState e st w) e' = Some (s, k)) \<longleftrightarrow> (\<exists>s. engines w e' = Some (s, k))"
  by (auto simp: engines_setState split: option.splits)

lemma none_setState: "engines (setState e st w) e' = None \<longleftrightarrow> engines w e' = None"
  by (auto simp: engines_setState split: option.splits)

lemma einv_setState: "einv w \<Longrightarrow> einv (setState e st w)"
  unfolding einv_def by (simp add: owner_setState none_setState)

lemma inloop_inflight: "inloop c \<Longrightarrow> inflight c"
  by (cases c) simp_all

lemma lnext_einv_frame:
  assumes "lnext k p i le w c' w'"
  shows "engines w' = engines w \<and> scanner w' = scanner w \<and> nextEngine w' = nextEngine w \<and>
     attempts w' = attempts w \<and> (c' = Finished \<or> (\<exists>e. c' = Starting i e le \<and> scanner w = Some e))"
  using assms by (cases rule: lnext.cases) (auto simp: finallyBlock_def catchBlock_def Let_def)

lemma einv_change:
  assumes e: "einv w" and a: "attempts w k = Some (p, c)" and lp: "inloop c"
    and f: "engines w' = engines w" "scanner w' = scanner w" "nextEngine w' = nextEngine w"
      "attempts w' = attempts w"
    and c': "c' = Finished \<or> (\<exists>i e le. c' = Starting i e le \<and> scanner w = Some e)
        \<or> (\<exists>i e x. c' = FallbackStop i e x \<and> scanner w = Some e)"
  shows "einv (w'\<lparr>attempts := (attempts w')(k \<mapsto> (p, c'))\<rparr>)"
  using e a lp c' unfolding einv_def f by (auto simp: f)

lemma einv_lnext:
  assumes e: "einv w0" and a: "attempts w0 k = Some (p, c)" and lp: "inloop c"
    and n: "lnext k p i le w0 c' w'"
  shows "einv (w'\<lparr>attempts := (attempts w')(k \<mapsto> (p, c'))\<rparr>)"
proof -
  note fr = lnext_einv_frame [OF n]
  have c': "c' = Finished \<or> (\<exists>i e le. c' = Starting i e le \<and> scanner w0 = Some e)
        \<or> (\<exists>i e x. c' = FallbackStop i e x \<and> scanner w0 = Some e)"
    using fr by auto
  show ?thesis
    by (rule einv_change [OF e a lp _ _ _ _ c']) (use fr in simp_all)
qed

lemma einv_astep:
  assumes e: "einv w" and i: "winv w" and a: "attempts w k = Some (p, c)" and s: "astep k p c w c' w'"
  shows "einv (w'\<lparr>attempts := (attempts w')(k \<mapsto> (p, c'))\<rparr>)"
  using s
proof (cases rule: astep.cases)
  case (settle_create e)
  have A4: "\<forall>j q d. attempts w j = Some (q, d) \<longrightarrow> inflight d \<longrightarrow> j = k"
    using i a settle_create(1) unfolding winv_def by (metis inflight.simps(6))
  then have nl: "\<forall>j q d. attempts w j = Some (q, d) \<longrightarrow> inloop d \<longrightarrow> j = k"
    using inloop_inflight by blast
  have noloop: "\<forall>j q d. attempts w j = Some (q, d) \<longrightarrow> \<not> inloop d"
  proof (intro allI impI notI)
    fix j q d assume 1: "attempts w j = Some (q, d)" and 2: "inloop d"
    with nl have "j = k" by blast
    with 1 a settle_create(1) have "d = Settling" by simp
    with 2 show False by simp
  qed
  from noloop have ns: "\<And>j q i e le. attempts w j \<noteq> Some (q, Starting i e le)"
    and nf: "\<And>j q i e x. attempts w j \<noteq> Some (q, FallbackStop i e x)"
    by (metis inloop.simps(1), metis inloop.simps(2))
  show ?thesis using e a settle_create ns nf noloop unfolding einv_def by (auto split: if_splits)
next
  case (rejected_stop e' e st i le x)
  have 1: "einv (setState e st w)" using e by (rule einv_setState)
  define w0 where "w0 = setState e st w"
  have c': "c' = Finished \<or> (\<exists>i e le. c' = Starting i e le \<and> scanner w0 = Some e)
        \<or> (\<exists>i e x. c' = FallbackStop i e x \<and> scanner w0 = Some e)"
    using rejected_stop by (simp add: w0_def)
  have "einv (w0\<lparr>attempts := (attempts w0)(k \<mapsto> (p, c'))\<rparr>)"
    by (rule einv_change [OF 1 [folded w0_def] _ _ _ _ _ _ c', of k p c])
      (use a rejected_stop in \<open>simp_all add: w0_def\<close>)
  then show ?thesis using rejected_stop by (simp add: w0_def)
next
  case (rejected_next e st i x le)
  have 1: "einv (setState e st w)" using e by (rule einv_setState)
  show ?thesis
    by (rule einv_lnext [OF 1 _ _ rejected_next(3), of c]) (use a rejected_next in simp_all)
next
  case (fallback_stopped i x e)
  have 1: "einv (setState e NOT_STARTED w)" using e by (rule einv_setState)
  show ?thesis
    by (rule einv_lnext [OF 1 _ _ fallback_stopped(2), of c]) (use a fallback_stopped in simp_all)
next
  case (fallback_stop_rejected i x e)
  show ?thesis
    by (rule einv_lnext [OF e _ _ fallback_stop_rejected(2), of c])
      (use a fallback_stop_rejected in simp_all)
next
  case (started i e le)
  have 1: "einv (setState e SCANNING w)" using e by (rule einv_setState)
  then show ?thesis using a started unfolding einv_def
    by (auto simp: finallyBlock_def)
qed (use e a in \<open>auto simp: einv_def finallyBlock_def catchBlock_def Let_def owner_setState none_setState\<close>)

lemma einv_frame:
  "einv w \<Longrightarrow> attempts w' = attempts w \<Longrightarrow> engines w' = engines w \<Longrightarrow> nextEngine w' = nextEngine w \<Longrightarrow>
   (scanner w' = scanner w \<or> scanner w' = None) \<Longrightarrow> einv w'"
  unfolding einv_def by auto

lemma einv_effect: "einv w \<Longrightarrow> einv (effect p w)"
  unfolding einv_def effect_def by (auto simp: Let_def)

lemma einv_cleanup: "einv w \<Longrightarrow> einv (effectCleanup k w)"
  unfolding einv_def effectCleanup_def by (auto simp: Let_def split: option.splits if_splits)

lemma resumeCleanup_einv:
  "resumeCleanup c r w = Some (c', w') \<Longrightarrow> einv w \<Longrightarrow> einv w'"
  by (cases "(c, r, w)" rule: resumeCleanup.cases) (auto simp: einv_setState elim: einv_frame)

lemma einv_step: "winv w \<Longrightarrow> einv w \<Longrightarrow> einv (wstep ev w)"
proof (cases ev)
  case (Effect p)
  assume "einv w" with Effect show ?thesis by (simp add: einv_effect)
next
  case (Cleanup k)
  assume "einv w" with Cleanup show ?thesis by (simp add: einv_cleanup)
next
  case Unmount
  assume "einv w"
  then show ?thesis unfolding Unmount
    by (rule einv_frame) (auto simp: safeCleanup_def Let_def split: option.splits)
next
  case (Wake k r)
  assume i: "winv w" and e: "einv w"
  show ?thesis
  proof (cases "attempts w k")
    case None
    with e Wake show ?thesis by simp
  next
    case (Some pc)
    obtain p c where pc: "pc = (p, c)" by (cases pc)
    show ?thesis
    proof (cases "resumeAttempt k p c r w")
      case None
      with Some pc e Wake show ?thesis by simp
    next
      case (Some cw)
      obtain c' w' where cw: "cw = (c', w')" by (cases cw)
      from Some cw have "astep k p c w c' w'" by (simp add: astep_sound)
      from einv_astep [OF e i _ this] \<open>attempts w k = Some pc\<close> pc Some cw Wake show ?thesis by simp
    qed
  qed
next
  case (WakeTeardown r)
  assume e: "einv w"
  show ?thesis
  proof (cases "teardown w")
    case None
    with e WakeTeardown show ?thesis by simp
  next
    case (Some c)
    show ?thesis
    proof (cases "resumeCleanup c r w")
      case None
      with Some e WakeTeardown show ?thesis by simp
    next
      case (Some cw)
      obtain c' w' where cw: "cw = (c', w')" by (cases cw)
      with Some have "einv w'" using resumeCleanup_einv e by blast
      then have "einv (w'\<lparr>teardown := c'\<rparr>)" by (rule einv_frame) simp_all
      with Some cw \<open>teardown w = Some c\<close> WakeTeardown show ?thesis by simp
    qed
  qed
next
  case (Decoded e t res)
  assume "einv w"
  then show ?thesis unfolding Decoded
    by (rule einv_frame) (auto simp: qrCodeSuccessCallback_def split: option.splits scannerState.splits)
next
  case (DecodeFailed e m)
  assume "einv w" with DecodeFailed show ?thesis by simp
qed

lemma both_run: "winv w \<Longrightarrow> einv w \<Longrightarrow> winv (wrun evs w) \<and> einv (wrun evs w)"
  by (induction evs arbitrary: w) (simp_all add: winv_step einv_step)

lemma einv_reachable: "einv (wrun evs mountedWidget)"
  using both_run [OF winv_init einv_init] by simp

lemma calls_step: "\<exists>ext. calls (wstep ev w) = calls w @ ext"
proof (cases ev)
  case (Wake k r)
  show ?thesis
  proof (cases "attempts w k")
    case None
    with Wake show ?thesis by simp
  next
    case (Some pc)
    obtain p c where pc: "pc = (p, c)" by (cases pc)
    show ?thesis
    proof (cases "resumeAttempt k p c r w")
      case None
      with Some pc Wake show ?thesis by simp
    next
      case (Some cw)
      obtain c' w' where cw: "cw = (c', w')" by (cases cw)
      from Some cw have "astep k p c w c' w'" by (simp add: astep_sound)
      from astep_frame [OF this] obtain ext where "calls w' = calls w @ ext" by blast
      with \<open>attempts w k = Some pc\<close> pc Some cw Wake show ?thesis by simp
    qed
  qed
next
  case (WakeTeardown r)
  then show ?thesis by (auto split: option.splits dest: resumeCleanup_frame)
next
  case Unmount
  then show ?thesis by (auto simp: safeCleanup_def Let_def split: option.splits)
qed (auto simp: effect_def effectCleanup_def qrCodeSuccessCallback_def Let_def
    split: option.splits scannerState.splits)

lemma calls_run: "\<exists>ext. calls (wrun evs w) = calls w @ ext"
proof (induction evs arbitrary: w)
  case Nil
  then show ?case by simp
next
  case (Cons ev evs)
  from calls_step obtain a where a: "calls (wstep ev w) = calls w @ a" by blast
  from Cons.IH obtain b where b: "calls (wrun evs (wstep ev w)) = calls (wstep ev w) @ b" by blast
  show ?case using a b by simp
qed

lemma start_resolved_step:
  assumes a: "attempts w k = Some (p, Starting i e le)"
  shows "calls (wstep (Wake k StartResolved) w) = calls w @ [(k, OnScannerInit True)] \<and>
     attempts (wstep (Wake k StartResolved) w) k = Some (p, Finished) \<and>
     engines (wstep (Wake k StartResolved) w) = engines (setState e SCANNING w)"
  using a by (simp add: finallyBlock_def)

lemma loopHead_current:
  "k = initializationAttempt w \<Longrightarrow> isActive p \<Longrightarrow> scanner w = Some e \<Longrightarrow>
   loopHead k p j le w =
     (if j < length cameraOptions
      then (Starting j e le, w\<lparr>starts := starts w @ [(k, e, cameraConfig p j, min (fps p) 10)]\<rparr>)
      else catchBlock k (lastOrDefault le) w)"
  by (subst loopHead.simps) (simp add: stale_def)

lemma getState_setState: "engines w e = Some (s0, k) \<Longrightarrow> getState (setState e st w) e = st"
  by (simp add: getState_def setState_def)

lemma reject_once:
  assumes l: "looping k p i e le w" and so: "isStop so"
  shows "(Suc i < length cameraOptions \<longrightarrow>
           looping k p (Suc i) e (Some x) (wrun (rejectEvents k (x, st, so)) w) \<and>
           calls (wrun (rejectEvents k (x, st, so)) w) = calls w \<and>
           error (wrun (rejectEvents k (x, st, so)) w) = error w \<and>
           starts (wrun (rejectEvents k (x, st, so)) w)
             = starts w @ [(k, e, cameraConfig p (Suc i), min (fps p) 10)]) \<and>
         (\<not> Suc i < length cameraOptions \<longrightarrow>
           attempts (wrun (rejectEvents k (x, st, so)) w) k = Some (p, Finished) \<and>
           calls (wrun (rejectEvents k (x, st, so)) w) = calls w @
             [(k, OnScannerInit False), (k, OnScanError (userFriendlyMessage (errorMessageOf (lastOrDefault (Some x)))))] \<and>
           error (wrun (rejectEvents k (x, st, so)) w) = Some (userFriendlyMessage (errorMessageOf (lastOrDefault (Some x)))) \<and>
           \<not> isInitializing' (wrun (rejectEvents k (x, st, so)) w))"
proof -
  from l obtain s0 where a: "attempts w k = Some (p, Starting i e le)"
    and k: "k = initializationAttempt w" and act: "isActive p" and sc: "scanner w = Some e"
    and en: "engines w e = Some (s0, k)" unfolding looping_def by blast
  define w1 where "w1 = setState e st w"
  have g: "getState w1 e = st" unfolding w1_def using en by (rule getState_setState)
  have w1: "attempts w1 = attempts w" "initializationAttempt w1 = initializationAttempt w"
    "scanner w1 = Some e" "calls w1 = calls w" "error w1 = error w" "starts w1 = starts w"
    "engines w1 e = Some (st, k)"
    using sc en by (simp_all add: w1_def engines_setState)
  show ?thesis
  proof (cases "running st")
    case False
    have r: "wrun (rejectEvents k (x, st, so)) w =
        (let (c', w') = loopHead k p (Suc i) (Some x) w1 in w'\<lparr>attempts := (attempts w')(k \<mapsto> (p, c'))\<rparr>)"
      using False a sc g by (simp add: rejectEvents_def afterReject_def w1_def split: prod.splits)
    have lh: "loopHead k p (Suc i) (Some x) w1 =
      (if Suc i < length cameraOptions
       then (Starting (Suc i) e (Some x), w1\<lparr>starts := starts w1 @ [(k, e, cameraConfig p (Suc i), min (fps p) 10)]\<rparr>)
       else catchBlock k (lastOrDefault (Some x)) w1)"
      using loopHead_current [of k w1 p e "Suc i" "Some x"] k act w1 by simp
    show ?thesis unfolding r lh using w1 k act
      by (auto simp: looping_def catchBlock_def finallyBlock_def Let_def)
  next
    case True
    define w2 where "w2 = w1\<lparr>attempts := (attempts w1)(k \<mapsto> (p, FallbackStop i e x))\<rparr>"
    have s1: "wstep (Wake k (StartRejected x st)) w = w2"
      using True a sc g by (simp add: afterReject_def w1_def w2_def)
    define w3 where "w3 = (case so of StopResolved \<Rightarrow> setState e NOT_STARTED w2 | _ \<Rightarrow> w2)"
    have w3: "attempts w3 = attempts w2" "initializationAttempt w3 = initializationAttempt w"
      "scanner w3 = Some e" "calls w3 = calls w" "error w3 = error w" "starts w3 = starts w"
      "\<exists>s. engines w3 e = Some (s, k)"
      using w1 by (auto simp: w3_def w2_def engines_setState split: outcome.splits)
    have s2: "wstep (Wake k so) w2 =
        (let (c', w') = loopHead k p (Suc i) (Some x) w3 in w'\<lparr>attempts := (attempts w')(k \<mapsto> (p, c'))\<rparr>)"
      using so by (cases so) (simp_all add: w2_def w3_def split: prod.splits)
    have r: "wrun (rejectEvents k (x, st, so)) w =
        (let (c', w') = loopHead k p (Suc i) (Some x) w3 in w'\<lparr>attempts := (attempts w')(k \<mapsto> (p, c'))\<rparr>)"
      using True s1 s2 by (simp add: rejectEvents_def)
    have lh: "loopHead k p (Suc i) (Some x) w3 =
      (if Suc i < length cameraOptions
       then (Starting (Suc i) e (Some x), w3\<lparr>starts := starts w3 @ [(k, e, cameraConfig p (Suc i), min (fps p) 10)]\<rparr>)
       else catchBlock k (lastOrDefault (Some x)) w3)"
      using loopHead_current [of k w3 p e "Suc i" "Some x"] k act w3 by simp
    show ?thesis unfolding r lh using w3 k act
      by (auto simp: looping_def catchBlock_def finallyBlock_def Let_def)
  qed
qed

lemma reject_prefix:
  "looping k p i e le w \<Longrightarrow> list_all stopsOk fs \<Longrightarrow> i + length fs < length cameraOptions \<Longrightarrow>
   looping k p (i + length fs) e (if fs = [] then le else Some (fst (last fs)))
     (wrun (concat (map (rejectEvents k) fs)) w) \<and>
   calls (wrun (concat (map (rejectEvents k) fs)) w) = calls w \<and>
   error (wrun (concat (map (rejectEvents k) fs)) w) = error w \<and>
   starts (wrun (concat (map (rejectEvents k) fs)) w)
     = starts w @ map (\<lambda>j. (k, e, cameraConfig p j, min (fps p) 10)) [Suc i ..< Suc (i + length fs)]"
proof (induction fs arbitrary: w i le)
  case Nil
  then show ?case by simp
next
  case (Cons f fs)
  obtain x st so where f: "f = (x, st, so)" by (cases f)
  define w1 where "w1 = wrun (rejectEvents k f) w"
  have so: "isStop so" using Cons.prems(2) f by (simp add: stopsOk_def)
  have lt: "Suc i < length cameraOptions" using Cons.prems(3) by simp
  from reject_once [OF Cons.prems(1) so, of x st] lt
  have l1: "looping k p (Suc i) e (Some x) w1" and c1: "calls w1 = calls w" and e1: "error w1 = error w"
    and s1: "starts w1 = starts w @ [(k, e, cameraConfig p (Suc i), min (fps p) 10)]"
    by (simp_all add: w1_def f)
  have r: "wrun (concat (map (rejectEvents k) (f # fs))) w = wrun (concat (map (rejectEvents k) fs)) w1"
    by (simp add: w1_def wrun_append)
  have rest: "list_all stopsOk fs" "Suc i + length fs < length cameraOptions"
    using Cons.prems by simp_all
  have up: "[Suc i ..< Suc (i + length (f # fs))] = Suc i # [Suc (Suc i) ..< Suc (Suc i + length fs)]"
    by (subst upt_rec) simp
  from Cons.IH [OF l1 rest] show ?case unfolding r up using c1 e1 s1 f
    by (auto split: if_splits)
qed




section \<open>Stale attempts, fallback order and reporting\<close>

subsection \<open>Evaluation of concrete sessions\<close>

lemmas widget_defs = mountedWidget_def effect_def effectCleanup_def initScanner_def safeCleanup_def
  afterSettle_def afterReject_def finallyBlock_def catchBlock_def stale_def setState_def getState_def
  running_def cameraOptions_def cameraConfig_def qrCodeSuccessCallback_def Let_def

lemma permission_message: "userFriendlyMessage (errorMessageOf permissionError) = permissionDenied"
  by (simp add: userFriendlyMessage_def errorMessageOf_def permissionError_def includes_str_def
    sublist_Cons_right prefix_code)

lemma lastOrDefault_simps [simp]:
  "lastOrDefault None = allOptionsFailed"
  "lastOrDefault (Some Falsy) = allOptionsFailed"
  "lastOrDefault (Some (AnError e)) = AnError e"
  "lastOrDefault (Some NotAnError) = NotAnError"
  by (simp_all add: lastOrDefault_def)

lemma lastOrDefault_permission [simp]: "lastOrDefault (Some permissionError) = permissionError"
  by (simp add: permissionError_def)

subsection \<open>Stale attempts\<close>

text \<open>
  Claim C3 (an attempt that is superseded before its camera-open call resolves invokes no
  callback and changes no displayed state). In part_002 the attempt counter is tested after the
  settling delay and at the head of every iteration of the loop, but not after
  \<open>await start(...)\<close> (lines 152 to 155) and not after the loop (lines 176 to 198). In the
  first session below the cleanup of the effect invalidates attempt 1 while \<open>start\<close> of option 0
  is pending: the counter is 2, and when \<open>start\<close> resolves attempt 1 still calls
  \<open>onScannerInit(true)\<close>, its engine forwards a decoded frame to \<open>onScanSuccess\<close>, and the
  state \<open>isInitializing\<close> stays set. In the second session the fifth \<open>start\<close> is rejected
  after the attempt was invalidated: \<open>onScannerInit(false)\<close> and \<open>onScanError\<close> are called and
  the error overlay is set.
\<close>

theorem stale_attempt_reports:
  "attempts (wrun toFirstStart mountedWidget) 1 = Some (defaultProps, Starting 0 0 None) \<and>
   initializationAttempt (wrun (toFirstStart @ [Cleanup 1]) mountedWidget) = 2 \<and>
   calls (wrun supersededThenStarted mountedWidget) = [(1, OnScannerInit True)] \<and>
   calls (wrun (supersededThenStarted @ [Decoded 0 ''ABC123'' abc123]) mountedWidget)
     = [(1, OnScannerInit True), (1, OnScanSuccess ''ABC123'' abc123)] \<and>
   isInitializing' (wrun supersededThenStarted mountedWidget) \<and>
   calls (wrun supersededThenFailed mountedWidget)
     = [(1, OnScannerInit False), (1, OnScanError permissionDenied)] \<and>
   error (wrun supersededThenFailed mountedWidget) = Some permissionDenied"
  by (simp add: supersededThenStarted_def supersededThenFailed_def toFirstStart_def defaultProps_def
      widget_defs loopHead.simps permission_message)

subsection \<open>The order of the fallback list\<close>

lemma fail_prefix:
  "tasks w k = Some (Requesting i le) \<Longrightarrow> stream w = None \<Longrightarrow> list_all fails rs \<Longrightarrow>
   i + length rs < length opts \<Longrightarrow>
   tasks (run opts (map (Resume k) rs) w) k
     = Some (Requesting (i + length rs) (lastError le rs)) \<and>
   stream (run opts (map (Resume k) rs) w) = None \<and>
   requests (run opts (map (Resume k) rs) w)
     = requests w @ map (\<lambda>j. (k, opts ! j)) [Suc i ..< Suc (i + length rs)]"
proof (induction rs arbitrary: w i le)
  case Nil
  then show ?case by simp
next
  case (Cons r rs)
  let ?w = "step opts (Resume k r) w"
  have f: "fails r" and fs: "list_all fails rs" using Cons.prems by simp_all
  have lt: "i + 1 < length opts" using Cons.prems by simp
  note st = step_fail [OF Cons.prems(1) Cons.prems(2) f, of opts]
  have t: "tasks ?w k = Some (Requesting (Suc i) (lastError le [r]))"
    unfolding st using lt by (simp add: Let_def)
  have s: "stream ?w = None" unfolding st using Cons.prems(2) by (simp add: Let_def)
  have len: "Suc i + length rs < length opts" using Cons.prems by simp
  note ih = Cons.IH [OF t s fs len]
  have rq: "requests ?w = requests w @ [(k, opts ! Suc i)]"
    unfolding st using lt by (simp add: Let_def)
  have le: "lastError (lastError le [r]) rs = lastError le (r # rs)" by (cases r) simp_all
  have up: "[Suc i ..< Suc (i + length (r # rs))] = Suc i # [Suc (Suc i) ..< Suc (Suc i + length rs)]"
    by (subst upt_rec) simp
  have run_eq: "run opts (map (Resume k) (r # rs)) w = run opts (map (Resume k) rs) ?w"
    by simp
  show ?case unfolding run_eq up using ih rq le
    by (simp del: step.simps lastError.simps upt_Suc)
qed

lemma step_accept:
  "tasks w k = Some (Requesting i le) \<Longrightarrow> working s \<Longrightarrow>
   step opts (Resume k (GumResolved s)) w =
     w\<lparr>stream := Some s, openTracks := openTracks w @ handles s, isInitializing := False,
       usageCount := usageCount w + 1, tasks := (tasks w)(k \<mapsto> Returned s)\<rparr>"
  by (simp add: Let_def afterLoop_def)

lemma returned_settled: "tasks w k = Some (Returned s) \<Longrightarrow> step opts (Resume k r) w = w"
  by simp

lemma first_working_from:
  assumes "stream w = None" "\<not> isInitializing w" "gumSupported w" "enumerated d"
    and "list_all fails rs" "length rs < length opts" "working s"
  shows "tasks (run opts (Call # Resume (nextTask w) d # map (Resume (nextTask w)) (rs @ [GumResolved s])) w)
           (nextTask w) = Some (Returned s) \<and>
         stream (run opts (Call # Resume (nextTask w) d # map (Resume (nextTask w)) (rs @ [GumResolved s])) w)
           = Some s \<and>
         requests (run opts (Call # Resume (nextTask w) d # map (Resume (nextTask w)) (rs @ [GumResolved s])) w)
           = requests w @ map (\<lambda>j. (nextTask w, opts ! j)) [0 ..< Suc (length rs)]"
proof -
  define k where "k = nextTask w"
  define w1 where "w1 = step opts Call w"
  define w2 where "w2 = step opts (Resume k d) w1"
  define w3 where "w3 = run opts (map (Resume k) rs) w2"
  have ne: "opts \<noteq> []" using assms(6) by auto
  have w1: "w1 = w\<lparr>isInitializing := True, tasks := (tasks w)(k \<mapsto> Enumerating),
     nextTask := k + 1\<rparr>"
    unfolding w1_def k_def using assms(1-3) by (rule step_call_fresh)
  have "tasks w1 k = Some Enumerating" by (simp add: w1)
  then have w2: "w2 = w1\<lparr>requests := requests w1 @ [(k, opts ! 0)],
     tasks := (tasks w1)(k \<mapsto> Requesting 0 None)\<rparr>"
    unfolding w2_def using assms(4) ne by (rule step_enumerated)
  have t: "tasks w2 k = Some (Requesting 0 None)" by (simp add: w2)
  have s: "stream w2 = None" using assms(1) by (simp add: w2 w1)
  have len: "0 + length rs < length opts" using assms(6) by simp
  note p = fail_prefix [OF t s assms(5) len, folded w3_def]
  from p have t3: "tasks w3 k = Some (Requesting (0 + length rs) (lastError None rs))" by blast
  note a = step_accept [OF t3 assms(7), of opts]
  have r2: "requests w2 = requests w @ [(k, opts ! 0)]" by (simp add: w2 w1)
  have up: "[0 ..< Suc (length rs)] = 0 # [Suc 0 ..< Suc (length rs)]" by (subst upt_rec) simp
  have run_eq: "run opts (Call # Resume k d # map (Resume k) (rs @ [GumResolved s])) w
      = step opts (Resume k (GumResolved s)) w3"
    by (simp add: w3_def w2_def w1_def run_append del: step.simps)
  show ?thesis unfolding k_def [symmetric] run_eq a up using p r2
    by (simp del: upt_Suc)
qed

lemma first_start_from:
  assumes l: "looping k p i e le w" and wf: "list_all stopsOk fs"
    and len: "i + length fs < length cameraOptions"
  shows "starts (wrun (concat (map (rejectEvents k) fs) @ [Wake k StartResolved]) w)
           = starts w @ map (\<lambda>j. (k, e, cameraConfig p j, min (fps p) 10)) [Suc i ..< Suc (i + length fs)] \<and>
         getState (wrun (concat (map (rejectEvents k) fs) @ [Wake k StartResolved]) w) e = SCANNING \<and>
         attempts (wrun (concat (map (rejectEvents k) fs) @ [Wake k StartResolved]) w) k
           = Some (p, Finished) \<and>
         calls (wrun (concat (map (rejectEvents k) fs) @ [Wake k StartResolved]) w)
           = calls w @ [(k, OnScannerInit True)]"
proof -
  define w1 where "w1 = wrun (concat (map (rejectEvents k) fs)) w"
  note r = reject_prefix [OF l wf len, folded w1_def]
  from r have l1: "looping k p (i + length fs) e (if fs = [] then le else Some (fst (last fs))) w1"
    by blast
  then obtain st where a: "attempts w1 k = Some (p, Starting (i + length fs) e (if fs = [] then le else Some (fst (last fs))))"
    and en: "engines w1 e = Some (st, k)" unfolding looping_def by blast
  have run_eq: "wrun (concat (map (rejectEvents k) fs) @ [Wake k StartResolved]) w
      = wstep (Wake k StartResolved) w1"
    by (simp add: wrun_append w1_def del: wstep.simps)
  have s: "starts (wstep (Wake k StartResolved) w1) = starts w1"
    using a by (simp add: finallyBlock_def setState_def en)
  have g: "getState (wstep (Wake k StartResolved) w1) e = SCANNING"
    using a en by (simp add: finallyBlock_def setState_def getState_def)
  note t = start_resolved_step [OF a]
  show ?thesis unfolding run_eq using r s g t by simp
qed

lemma finished_settled: "attempts w k = Some (p, Finished) \<Longrightarrow> wstep (Wake k r) w = w"
  by simp

lemma option_lists:
  "map facingOf constraintOptions
     = [Some (Facing ''environment''), Some (FacingIdeal ''environment''), Some (Facing ''user''),
        None, None]"
  "map facingOf constraintOptions2
     = [None, None, Some (Facing ''user''), Some (FacingIdeal ''environment'')]"
  "widgetOptions p
     = [Some (Facing ''environment''), Some (FacingIdeal ''environment''),
        Some (FacingExact ''environment''), Some (Facing ''user''), Some (Facing (preferredCamera p))]"
  by (simp_all add: facingOf_def constraintOptions_def constraintOptions2_def widgetOptions_def
      cameraOptions_def cameraConfig_def upt_rec)

text \<open>
  Claim C6 as stated (the list runs from rear-facing constraints to progressively relaxed ones
  and ends with an unconstrained option) fails for two of the three lists. The list of the second
  revision of the manager begins with \<open>{ video: true }\<close> and ends with the ideal rear camera.
  The list the widget of part_002 passes to \<open>start\<close> ends with
  \<open>{ facingMode: preferredCamera }\<close>, by default the rear camera again, and with no option that
  names no camera.
\<close>

theorem fallback_order_differs:
  "\<not> specFallbackOrder (map facingOf constraintOptions2) \<and>
   hd constraintOptions2 = VideoTrue \<and>
   facingOf (last constraintOptions2) = Some (FacingIdeal ''environment'') \<and>
   \<not> specFallbackOrder (widgetOptions defaultProps) \<and>
   last (widgetOptions defaultProps) = Some (Facing ''environment'')"
  by (simp add: option_lists specFallbackOrder_def relaxation_def defaultProps_def)
    (simp add: constraintOptions2_def facingOf_def)

text \<open>
  Claim C6, amended. Each variant tries its own list in the order of the list, and the first
  option that works wins. In the manager, for any option list: when the first \<open>length rs\<close>
  options fail and the next yields a working stream, the call returns that stream, the requests
  it made are those for the options 0 to \<open>length rs\<close> in this order, and the task makes no
  request afterwards. In the widget of part_002: when the options after option \<open>i\<close> are
  rejected and the next \<open>start\<close> resolves, the \<open>start\<close> calls made are those for the options
  up to that one in order, the engine is scanning, and the attempt makes no call afterwards.
  The cameras asked for are: rear, ideal rear, front, none, none in the first revision of the
  manager (the order the specification describes); none, none, front, ideal rear in the second;
  rear, ideal rear, exact rear, front, preferred camera in the widget.
\<close>

theorem first_working_option_wins:
  "(stream m = None \<and> \<not> isInitializing m \<and> gumSupported m \<and> enumerated d \<and>
      list_all fails rs \<and> length rs < length opts \<and> working s \<longrightarrow>
      tasks (run opts (Call # Resume (nextTask m) d # map (Resume (nextTask m)) (rs @ [GumResolved s])) m)
        (nextTask m) = Some (Returned s) \<and>
      stream (run opts (Call # Resume (nextTask m) d # map (Resume (nextTask m)) (rs @ [GumResolved s])) m)
        = Some s \<and>
      requests (run opts (Call # Resume (nextTask m) d # map (Resume (nextTask m)) (rs @ [GumResolved s])) m)
        = requests m @ map (\<lambda>j. (nextTask m, opts ! j)) [0 ..< Suc (length rs)] \<and>
      (\<forall>r. step opts (Resume (nextTask m) r)
         (run opts (Call # Resume (nextTask m) d # map (Resume (nextTask m)) (rs @ [GumResolved s])) m)
        = run opts (Call # Resume (nextTask m) d # map (Resume (nextTask m)) (rs @ [GumResolved s])) m)) \<and>
   (looping k p i e le w \<and> list_all stopsOk fs \<and> i + length fs < length cameraOptions \<longrightarrow>
      starts (wrun (concat (map (rejectEvents k) fs) @ [Wake k StartResolved]) w)
        = starts w @ map (\<lambda>j. (k, e, cameraConfig p j, min (fps p) 10)) [Suc i ..< Suc (i + length fs)] \<and>
      getState (wrun (concat (map (rejectEvents k) fs) @ [Wake k StartResolved]) w) e = SCANNING \<and>
      (\<forall>r. wstep (Wake k r) (wrun (concat (map (rejectEvents k) fs) @ [Wake k StartResolved]) w)
        = wrun (concat (map (rejectEvents k) fs) @ [Wake k StartResolved]) w)) \<and>
   map facingOf constraintOptions
     = [Some (Facing ''environment''), Some (FacingIdeal ''environment''), Some (Facing ''user''),
        None, None] \<and>
   specFallbackOrder (map facingOf constraintOptions) \<and>
   map facingOf constraintOptions2
     = [None, None, Some (Facing ''user''), Some (FacingIdeal ''environment'')] \<and>
   widgetOptions p
     = [Some (Facing ''environment''), Some (FacingIdeal ''environment''),
        Some (FacingExact ''environment''), Some (Facing ''user''), Some (Facing (preferredCamera p))]"
proof -
  have 1: "stream m = None \<and> \<not> isInitializing m \<and> gumSupported m \<and> enumerated d \<and>
      list_all fails rs \<and> length rs < length opts \<and> working s \<longrightarrow>
      tasks (run opts (Call # Resume (nextTask m) d # map (Resume (nextTask m)) (rs @ [GumResolved s])) m)
        (nextTask m) = Some (Returned s) \<and>
      stream (run opts (Call # Resume (nextTask m) d # map (Resume (nextTask m)) (rs @ [GumResolved s])) m)
        = Some s \<and>
      requests (run opts (Call # Resume (nextTask m) d # map (Resume (nextTask m)) (rs @ [GumResolved s])) m)
        = requests m @ map (\<lambda>j. (nextTask m, opts ! j)) [0 ..< Suc (length rs)] \<and>
      (\<forall>r. step opts (Resume (nextTask m) r)
         (run opts (Call # Resume (nextTask m) d # map (Resume (nextTask m)) (rs @ [GumResolved s])) m)
        = run opts (Call # Resume (nextTask m) d # map (Resume (nextTask m)) (rs @ [GumResolved s])) m)"
  proof (intro impI, elim conjE)
    assume h: "stream m = None" "\<not> isInitializing m" "gumSupported m" "enumerated d"
      "list_all fails rs" "length rs < length opts" "working s"
    define m' where "m' = run opts (Call # Resume (nextTask m) d #
      map (Resume (nextTask m)) (rs @ [GumResolved s])) m"
    note f = first_working_from [OF h, folded m'_def]
    then have "tasks m' (nextTask m) = Some (Returned s)" by blast
    then have "\<forall>r. step opts (Resume (nextTask m) r) m' = m'"
      using returned_settled by blast
    with f show "tasks m' (nextTask m) = Some (Returned s) \<and> stream m' = Some s \<and>
      requests m' = requests m @ map (\<lambda>j. (nextTask m, opts ! j)) [0 ..< Suc (length rs)] \<and>
      (\<forall>r. step opts (Resume (nextTask m) r) m' = m')" by blast
  qed
  have 2: "looping k p i e le w \<and> list_all stopsOk fs \<and> i + length fs < length cameraOptions \<longrightarrow>
      starts (wrun (concat (map (rejectEvents k) fs) @ [Wake k StartResolved]) w)
        = starts w @ map (\<lambda>j. (k, e, cameraConfig p j, min (fps p) 10)) [Suc i ..< Suc (i + length fs)] \<and>
      getState (wrun (concat (map (rejectEvents k) fs) @ [Wake k StartResolved]) w) e = SCANNING \<and>
      (\<forall>r. wstep (Wake k r) (wrun (concat (map (rejectEvents k) fs) @ [Wake k StartResolved]) w)
        = wrun (concat (map (rejectEvents k) fs) @ [Wake k StartResolved]) w)"
  proof (intro impI, elim conjE)
    assume h: "looping k p i e le w" "list_all stopsOk fs" "i + length fs < length cameraOptions"
    define w' where "w' = wrun (concat (map (rejectEvents k) fs) @ [Wake k StartResolved]) w"
    note f = first_start_from [OF h, folded w'_def]
    then have "attempts w' k = Some (p, Finished)" by blast
    then have "\<forall>r. wstep (Wake k r) w' = w'" using finished_settled by blast
    with f show "starts w' = starts w @
        map (\<lambda>j. (k, e, cameraConfig p j, min (fps p) 10)) [Suc i ..< Suc (i + length fs)] \<and>
      getState w' e = SCANNING \<and> (\<forall>r. wstep (Wake k r) w' = w')" by blast
  qed
  have 3: "specFallbackOrder (map facingOf constraintOptions)"
    by (simp add: option_lists specFallbackOrder_def relaxation_def)
  show ?thesis using 1 2 3 option_lists by blast
qed

text \<open>
  The theorem on the second list of the manager with two failing options and then a live stream,
  and on the widget with two rejected options and then a \<open>start\<close> that resolves.
\<close>

theorem first_working_option_wins_witness:
  "requests (run constraintOptions2
      (Call # Resume 0 (DevicesListed 1) # map (Resume 0) (twoFailures @ [GumResolved liveStream]))
      (init True))
     = [(0, constraintOptions2 ! 0), (0, constraintOptions2 ! 1), (0, constraintOptions2 ! 2)] \<and>
   tasks (run constraintOptions2
      (Call # Resume 0 (DevicesListed 1) # map (Resume 0) (twoFailures @ [GumResolved liveStream]))
      (init True)) 0 = Some (Returned liveStream) \<and>
   looping 1 defaultProps 0 0 None (wrun toFirstStart mountedWidget) \<and>
   starts (wrun (concat (map (rejectEvents 1) twoRejections) @ [Wake 1 StartResolved])
      (wrun toFirstStart mountedWidget))
     = [(1, 0, Facing ''environment'', 10), (1, 0, FacingIdeal ''environment'', 10),
        (1, 0, FacingExact ''environment'', 10)] \<and>
   getState (wrun (concat (map (rejectEvents 1) twoRejections) @ [Wake 1 StartResolved])
      (wrun toFirstStart mountedWidget)) 0 = SCANNING"
proof -
  define m' where "m' = run constraintOptions2
      (Call # Resume 0 (DevicesListed 1) # map (Resume 0) (twoFailures @ [GumResolved liveStream]))
      (init True)"
  define w where "w = wrun toFirstStart mountedWidget"
  define w' where "w' = wrun (concat (map (rejectEvents 1) twoRejections) @ [Wake 1 StartResolved]) w"
  have n: "nextTask (init True) = 0" "requests (init True) = []" by (simp_all add: init_def)
  have h: "stream (init True) = None" "\<not> isInitializing (init True)" "gumSupported (init True)"
    "enumerated (DevicesListed 1)" "list_all fails twoFailures"
    "length twoFailures < length constraintOptions2" "working liveStream"
    by (simp_all add: init_def constraintOptions2_def twoFailures_def endedStream_def liveStream_def
        working_def getVideoTracks_def)
  have l: "looping 1 defaultProps 0 0 None w"
    by (simp add: w_def looping_def toFirstStart_def defaultProps_def widget_defs loopHead.simps)
  have s0: "starts w = [(1, 0, Facing ''environment'', 10)]"
    by (simp add: w_def toFirstStart_def defaultProps_def widget_defs loopHead.simps)
  have g: "list_all stopsOk twoRejections" "0 + length twoRejections < length cameraOptions"
    by (simp_all add: twoRejections_def stopsOk_def cameraOptions_def)
  note t = first_working_option_wins [of "init True" "DevicesListed 1" twoFailures constraintOptions2 liveStream
      1 defaultProps 0 0 None w twoRejections, unfolded n, folded m'_def w'_def]
  from t h have a: "tasks m' 0 = Some (Returned liveStream)"
    and b: "requests m' = [] @ map (\<lambda>j. (0, constraintOptions2 ! j)) [0 ..< Suc (length twoFailures)]"
    by blast+
  from t l g have c: "starts w' = starts w @
      map (\<lambda>j. (1, 0, cameraConfig defaultProps j, min (fps defaultProps) 10))
        [Suc 0 ..< Suc (0 + length twoRejections)]"
    and d: "getState w' 0 = SCANNING" by blast+
  have b': "requests m' = [(0, constraintOptions2 ! 0), (0, constraintOptions2 ! 1), (0, constraintOptions2 ! 2)]"
    unfolding b by (simp add: twoFailures_def upt_rec numeral_2_eq_2)
  have c': "starts w' = [(1, 0, Facing ''environment'', 10), (1, 0, FacingIdeal ''environment'', 10),
        (1, 0, FacingExact ''environment'', 10)]"
    unfolding c s0 by (simp add: twoRejections_def upt_rec cameraConfig_def cameraOptions_def defaultProps_def)
  show ?thesis unfolding m'_def [symmetric] w_def [symmetric] w'_def [symmetric]
    using a b' l c' d by simp
qed

subsection \<open>Reporting a successful start\<close>

text \<open>
  Claim C7. In every reachable state of the widget of part_002 each attempt has made at most one
  call of \<open>onScannerInit\<close>. When the \<open>start\<close> an attempt awaits resolves, the attempt calls
  \<open>onScannerInit(true)\<close>, this is its only call of \<open>onScannerInit\<close> then and in every later
  state, and the engine is scanning with the handlers of that attempt. A frame decoded by a
  scanning engine calls \<open>onScanSuccess\<close> with the decoded text and the full result. In
  QRScanner.tsx an activation whose first or second \<open>start\<close> resolves calls
  \<open>onScannerInit(true)\<close> once and nothing else.
\<close>

theorem init_reported_once:
  "(\<forall>k. length (initCalls k (calls (wrun evs mountedWidget))) \<le> 1) \<and>
   (\<forall>k p i e le. attempts (wrun evs mountedWidget) k = Some (p, Starting i e le) \<longrightarrow>
      initCalls k (calls (wrun evs mountedWidget)) = [] \<and>
      calls (wstep (Wake k StartResolved) (wrun evs mountedWidget))
        = calls (wrun evs mountedWidget) @ [(k, OnScannerInit True)] \<and>
      engines (wstep (Wake k StartResolved) (wrun evs mountedWidget)) e = Some (SCANNING, k) \<and>
      (\<forall>evs'. initCalls k (calls (wrun evs' (wstep (Wake k StartResolved) (wrun evs mountedWidget))))
         = [(k, OnScannerInit True)])) \<and>
   (\<forall>w e k. engines w e = Some (SCANNING, k) \<longrightarrow>
      calls (wstep (Decoded e text res) w) = calls w @ [(k, OnScanSuccess text res)]) \<and>
   initScannerBasic None StartOk fallback = [OnScannerInit True] \<and>
   initScannerBasic None (StartFailed y) StartOk = [OnScannerInit True] \<and>
   qrCodeSuccessCallback text res = [OnScanSuccess text res]"
proof -
  define w where "w = wrun evs mountedWidget"
  have i: "winv w" and e: "einv w" unfolding w_def by (rule winv_reachable, rule einv_reachable)
  have 1: "\<forall>k. length (initCalls k (calls w)) \<le> 1" using i unfolding winv_def by blast
  have 2: "\<forall>k p i e le. attempts w k = Some (p, Starting i e le) \<longrightarrow>
      initCalls k (calls w) = [] \<and>
      calls (wstep (Wake k StartResolved) w) = calls w @ [(k, OnScannerInit True)] \<and>
      engines (wstep (Wake k StartResolved) w) e = Some (SCANNING, k) \<and>
      (\<forall>evs'. initCalls k (calls (wrun evs' (wstep (Wake k StartResolved) w)))
         = [(k, OnScannerInit True)])"
  proof (intro allI impI)
    fix k p j e le assume a: "attempts w k = Some (p, Starting j e le)"
    note s = start_resolved_step [OF a]
    have n: "initCalls k (calls w) = []" using i a by (rule unfinished_no_init) simp
    from e a obtain st where "engines w e = Some (st, k)" unfolding einv_def by blast
    then have en: "engines (wstep (Wake k StartResolved) w) e = Some (SCANNING, k)"
      using s by (simp add: engines_setState)
    have later: "\<forall>evs'. initCalls k (calls (wrun evs' (wstep (Wake k StartResolved) w)))
         = [(k, OnScannerInit True)]"
    proof
      fix evs'
      define w2 where "w2 = wrun evs' (wstep (Wake k StartResolved) w)"
      have r: "w2 = wrun (evs @ Wake k StartResolved # evs') mountedWidget"
        by (simp add: w2_def w_def wrun_append)
      have "winv w2" unfolding r by (rule winv_reachable)
      then have le1: "length (initCalls k (calls w2)) \<le> 1" unfolding winv_def by blast
      from calls_run obtain ext where "calls w2 = calls (wstep (Wake k StartResolved) w) @ ext"
        unfolding w2_def by blast
      with s have "calls w2 = calls w @ [(k, OnScannerInit True)] @ ext" by simp
      then have "initCalls k (calls w2) = (k, OnScannerInit True) # initCalls k ext"
        using n by simp
      with le1 show "initCalls k (calls w2) = [(k, OnScannerInit True)]" by simp
    qed
    show "initCalls k (calls w) = [] \<and>
      calls (wstep (Wake k StartResolved) w) = calls w @ [(k, OnScannerInit True)] \<and>
      engines (wstep (Wake k StartResolved) w) e = Some (SCANNING, k) \<and>
      (\<forall>evs'. initCalls k (calls (wrun evs' (wstep (Wake k StartResolved) w)))
         = [(k, OnScannerInit True)])"
      using n s en later by blast
  qed
  have 3: "\<forall>w e k. engines w e = Some (SCANNING, k) \<longrightarrow>
      calls (wstep (Decoded e text res) w) = calls w @ [(k, OnScanSuccess text res)]"
    by (simp add: qrCodeSuccessCallback_def)
  have 4: "initScannerBasic None StartOk fallback = [OnScannerInit True]"
    "initScannerBasic None (StartFailed y) StartOk = [OnScannerInit True]"
    "qrCodeSuccessCallback text res = [OnScanSuccess text res]"
    by (simp_all add: initScannerBasic_def qrCodeSuccessCallback_def)
  show ?thesis using 1 2 3 4 unfolding w_def by blast
qed

text \<open>
  The theorem on the scenario of the specification: default settings, the first option starts,
  and a frame with payload \<open>ABC123\<close> is decoded; a later activation leaves the one call of
  \<open>onScannerInit\<close> of attempt 1 as it is.
\<close>

theorem init_reported_once_witness:
  "attempts (wrun toFirstStart mountedWidget) 1 = Some (defaultProps, Starting 0 0 None) \<and>
   calls (wrun (toFirstStart @ [Wake 1 StartResolved]) mountedWidget) = [(1, OnScannerInit True)] \<and>
   engines (wrun (toFirstStart @ [Wake 1 StartResolved]) mountedWidget) 0 = Some (SCANNING, 1) \<and>
   calls (wrun (toFirstStart @ [Wake 1 StartResolved, Decoded 0 ''ABC123'' abc123]) mountedWidget)
     = [(1, OnScannerInit True), (1, OnScanSuccess ''ABC123'' abc123)] \<and>
   initCalls 1 (calls (wrun (toFirstStart @ [Wake 1 StartResolved, Decoded 0 ''ABC123'' abc123,
       Effect defaultProps, Wake 2 Timeout]) mountedWidget)) = [(1, OnScannerInit True)]"
proof -
  define w where "w = wrun toFirstStart mountedWidget"
  define w1 where "w1 = wstep (Wake 1 StartResolved) w"
  have a: "attempts w 1 = Some (defaultProps, Starting 0 0 None)" and c0: "calls w = []"
    by (simp_all add: w_def toFirstStart_def defaultProps_def widget_defs loopHead.simps)
  note t = init_reported_once [of toFirstStart "''ABC123''" abc123, folded w_def]
  from t a have b: "calls w1 = calls w @ [(1, OnScannerInit True)]"
    and c: "engines w1 0 = Some (SCANNING, 1)"
    and d: "initCalls 1 (calls (wrun [Decoded 0 ''ABC123'' abc123, Effect defaultProps, Wake 2 Timeout] w1))
      = [(1, OnScannerInit True)]"
    unfolding w1_def by blast+
  from t c have e: "calls (wstep (Decoded 0 ''ABC123'' abc123) w1)
      = calls w1 @ [(1, OnScanSuccess ''ABC123'' abc123)]" by blast
  have r: "wrun (toFirstStart @ [Wake 1 StartResolved]) mountedWidget = w1"
    "wrun (toFirstStart @ [Wake 1 StartResolved, Decoded 0 ''ABC123'' abc123]) mountedWidget
      = wstep (Decoded 0 ''ABC123'' abc123) w1"
    "wrun (toFirstStart @ [Wake 1 StartResolved, Decoded 0 ''ABC123'' abc123,
       Effect defaultProps, Wake 2 Timeout]) mountedWidget
      = wrun [Decoded 0 ''ABC123'' abc123, Effect defaultProps, Wake 2 Timeout] w1"
    by (simp_all add: wrun_append w_def w1_def del: wstep.simps)
  show ?thesis unfolding r w_def [symmetric] using a b c d e c0
    by (simp del: wstep.simps wrun_Cons wrun_Nil)
qed

subsection \<open>Reporting a failed start\<close>






section \<open>At most one engine holds the camera\<close>

lemma latest_frame [simp]:
  "latest (w\<lparr>attempts := a\<rparr>) e = latest w e"
  "latest (w\<lparr>calls := b\<rparr>) e = latest w e"
  "latest (w\<lparr>isInitializing' := c\<rparr>) e = latest w e"
  "latest (w\<lparr>isCleaningUp := d\<rparr>) e = latest w e"
  "latest (w\<lparr>scanner := f\<rparr>) e = latest w e"
  "latest (w\<lparr>error := g\<rparr>) e = latest w e"
  "latest (w\<lparr>starts := h\<rparr>) e = latest w e"
  "latest (w\<lparr>initializationAttempt := i\<rparr>) e = latest w e"
  "latest (w\<lparr>mounted := j\<rparr>) e = latest w e"
  "latest (w\<lparr>teardown := k\<rparr>) e = latest w e"
  "latest (w\<lparr>engines := l\<rparr>) e = latest w e"
  "latest (setState e' st w) e = latest w e"
  "latest (w\<lparr>nextEngine := Suc n\<rparr>) e = (e = n)"
  by (auto simp: latest_def setState_def split: option.splits)

lemma latest_unique: "latest w e \<Longrightarrow> latest w e' \<Longrightarrow> e = e'"
  by (simp add: latest_def)

lemma latest_next: "\<not> latest w (nextEngine w)"
  by (simp add: latest_def)

lemma binv_init: "binv mountedWidget"
  by (simp add: binv_def mountedWidget_def getState_def running_def)

lemma getState_setState_if:
  "getState (setState e st w) e' =
     (if e' = e \<and> engines w e \<noteq> None then st else getState w e')"
  by (auto simp: getState_def setState_def split: option.splits)

lemma getState_frame [simp]:
  "getState (w\<lparr>attempts := a\<rparr>) e = getState w e"
  "getState (w\<lparr>calls := b\<rparr>) e = getState w e"
  "getState (w\<lparr>isInitializing' := c\<rparr>) e = getState w e"
  "getState (w\<lparr>isCleaningUp := d\<rparr>) e = getState w e"
  "getState (w\<lparr>scanner := f\<rparr>) e = getState w e"
  "getState (w\<lparr>error := g\<rparr>) e = getState w e"
  "getState (w\<lparr>starts := h\<rparr>) e = getState w e"
  "getState (w\<lparr>initializationAttempt := i\<rparr>) e = getState w e"
  "getState (w\<lparr>mounted := j\<rparr>) e = getState w e"
  "getState (w\<lparr>teardown := k\<rparr>) e = getState w e"
  "getState (w\<lparr>nextEngine := l\<rparr>) e = getState w e"
  by (simp_all add: getState_def)

lemma engineOf_inflight: "engineOf c = Some e \<Longrightarrow> inflight c"
  by (cases c) simp_all

lemma incleanup_inflight: "incleanup c \<Longrightarrow> inflight c"
  by (cases c) simp_all

lemma others_inflight:
  "winv w \<Longrightarrow> attempts w k = Some (p, c) \<Longrightarrow> inflight c \<Longrightarrow> attempts w j = Some (q, d) \<Longrightarrow>
   inflight d \<Longrightarrow> j = k"
  unfolding winv_def by blast

lemma none_inflight:
  "winv w \<Longrightarrow> attempts w k = Some (p, Scheduled) \<Longrightarrow> k = initializationAttempt w \<Longrightarrow>
   attempts w j = Some (q, d) \<Longrightarrow> \<not> inflight d"
  unfolding winv_def by blast

text \<open>When attempt \<open>k\<close> is the only one in flight, the invariant speaks about \<open>k\<close> alone.\<close>

lemma binv_binv1:
  assumes only: "\<forall>j q d. attempts w j = Some (q, d) \<longrightarrow> inflight d \<longrightarrow> j = k"
    and a: "attempts w k = Some (p, c)"
  shows "binv w \<longleftrightarrow> binv1 c w"
proof -
  have e: "\<And>j q d e. attempts w j = Some (q, d) \<Longrightarrow> engineOf d = Some e \<Longrightarrow> j = k \<and> q = p \<and> d = c"
    using only a engineOf_inflight by fastforce
  have s: "\<And>j q. attempts w j = Some (q, Settling) \<Longrightarrow> j = k \<and> q = p \<and> c = Settling"
    using only a by fastforce
  have d: "\<And>j q. attempts w j = Some (q, CleanupDelay) \<Longrightarrow> j = k \<and> q = p \<and> c = CleanupDelay"
    using only a by fastforce
  have i: "\<And>j q d. attempts w j = Some (q, d) \<Longrightarrow> incleanup d \<Longrightarrow> j = k \<and> q = p \<and> d = c"
    using only a incleanup_inflight by fastforce
  show ?thesis unfolding binv_def binv1_def
    apply (intro iffI)
    subgoal
      apply (elim conjE)
      apply (intro conjI impI allI)
      subgoal by blast
      subgoal using a by blast
      subgoal by blast
      subgoal by blast
      subgoal by blast
      subgoal using a by blast
      subgoal using a by blast
      subgoal using a by blast
      subgoal using i by blast
      subgoal by blast
      done
    subgoal
      apply (elim conjE)
      apply (intro conjI impI allI)
      subgoal by blast
      subgoal using e by blast
      subgoal by blast
      subgoal by blast
      subgoal by blast
      subgoal using s by blast
      subgoal using d by blast
      subgoal using e by blast
      subgoal using a by blast
      subgoal by blast
      done
    done
qed

lemma binv_effect: "binv w \<Longrightarrow> binv (effect p w)"
  unfolding binv_def effect_def Let_def
  by (auto split: if_splits)

lemma binv1_fields:
  "binv1 c (w\<lparr>attempts := a\<rparr>) = binv1 c w"
  "binv1 c (w\<lparr>calls := b\<rparr>) = binv1 c w"
  "binv1 c (w\<lparr>isInitializing' := i\<rparr>) = binv1 c w"
  "binv1 c (w\<lparr>error := g\<rparr>) = binv1 c w"
  "binv1 c (w\<lparr>starts := h\<rparr>) = binv1 c w"
  by (simp_all add: binv1_def)

lemma not_running [simp]: "\<not> running NOT_STARTED" "\<not> running UNKNOWN" "running SCANNING"
  by (simp_all add: running_def)

lemma getState_None: "engines w e = None \<Longrightarrow> getState w e = UNKNOWN"
  by (simp add: getState_def)

lemma running_setState:
  "running (getState (setState e st w) e') \<longleftrightarrow>
     (if e' = e then engines w e \<noteq> None \<and> running st else running (getState w e'))"
  by (cases "engines w e") (auto simp: getState_def engines_setState)

subsection \<open>One step of the only attempt in flight\<close>

lemma binv1_begin_settle:
  "binv1 Scheduled w \<Longrightarrow> scanner w = None \<or> isCleaningUp w \<Longrightarrow>
   binv1 Settling (w\<lparr>isInitializing' := True, error := None\<rparr>)"
  by (auto simp: binv1_def)

lemma binv1_begin_stop:
  "binv1 Scheduled w \<Longrightarrow> scanner w = Some e \<Longrightarrow>
   binv1 (CleanupStop e) (w\<lparr>isInitializing' := True, error := None, isCleaningUp := True\<rparr>)"
  by (auto simp: binv1_def)

lemma binv1_begin_delay:
  "binv1 Scheduled w \<Longrightarrow> scanner w = Some e \<Longrightarrow> \<not> running (getState w e) \<Longrightarrow>
   binv1 CleanupDelay (w\<lparr>isInitializing' := True, error := None, isCleaningUp := True\<rparr>)"
  by (auto simp: binv1_def)

lemma binv1_stop_resolved:
  "binv1 (CleanupStop e) w \<Longrightarrow> binv1 CleanupDelay (setState e NOT_STARTED w)"
  by (auto simp: binv1_def running_setState scanner_setState split: if_splits)

lemma binv1_cleaned:
  "binv1 CleanupDelay w \<Longrightarrow> binv1 Settling (w\<lparr>scanner := None, isCleaningUp := False\<rparr>)"
  by (auto simp: binv1_def)

lemma binv1_finally: "binv1 c w \<Longrightarrow> \<not> incleanup c \<Longrightarrow> binv1 Finished (snd (finallyBlock k w))"
  by (auto simp: binv1_def finallyBlock_def)

lemma binv1_catch: "binv1 c w \<Longrightarrow> \<not> incleanup c \<Longrightarrow> binv1 Finished (snd (catchBlock k x w))"
  by (auto simp: binv1_def finallyBlock_def catchBlock_def Let_def)

lemma binv1_create:
  "binv1 Settling w \<Longrightarrow> mounted w \<Longrightarrow>
   binv1 (Starting 0 (nextEngine w) None)
     (w\<lparr>engines := (engines w)(nextEngine w \<mapsto> (NOT_STARTED, k)), nextEngine := Suc (nextEngine w),
        scanner := Some (nextEngine w), starts := s\<rparr>)"
  by (auto simp: binv1_def getState_def)

lemma binv1_started:
  "binv1 (Starting i e le) w \<Longrightarrow>
   binv1 Finished (snd (finallyBlock k ((setState e SCANNING w)\<lparr>calls := cs\<rparr>)))"
  by (auto simp: binv1_def finallyBlock_def running_setState split: if_splits)

lemma binv1_rejected:
  "binv1 (Starting i e le) w \<Longrightarrow> binv1 (Starting j e le') (setState e st w)"
  by (auto simp: binv1_def running_setState split: if_splits)

lemma binv1_rejected_stop:
  "binv1 (Starting i e le) w \<Longrightarrow> scanner w = Some e' \<Longrightarrow> binv1 (FallbackStop i e' x) (setState e st w)"
  by (auto simp: binv1_def running_setState split: if_splits)

lemma binv1_fallback:
  "binv1 (FallbackStop i e x) w \<Longrightarrow> binv1 (Starting j e le) (setState e st w)"
  by (auto simp: binv1_def running_setState split: if_splits)

lemma binv1_fallback_same:
  "binv1 (FallbackStop i e x) w \<Longrightarrow> binv1 (Starting j e le) w"
  by (auto simp: binv1_def)

lemma binv1_lnext:
  assumes n: "lnext k p i le w c' w'" and b: "binv1 (Starting j e le') w"
  shows "binv1 c' w'"
  using n
proof (cases rule: lnext.cases)
  case (next_start e')
  with b show ?thesis by (auto simp: binv1_def)
next
  case next_stale
  with b show ?thesis by (simp add: binv1_finally)
next
  case (next_error x)
  with b show ?thesis by (simp add: binv1_catch)
qed

lemma astep_binv1:
  assumes s: "astep k p c w c' w'" and b: "binv1 c w" and nc: "\<forall>e. c \<noteq> CleanupStop e"
    and ns: "c = Scheduled \<longrightarrow> k = initializationAttempt w"
  shows "binv1 c' w'"
  using s
proof (cases rule: astep.cases)
  case skip
  with ns show ?thesis by simp
next
  case begin_settle
  with b show ?thesis by (simp add: binv1_begin_settle)
next
  case (begin_stop e)
  with b show ?thesis by (simp add: binv1_begin_stop)
next
  case (begin_delay e)
  with b show ?thesis by (simp add: binv1_begin_delay)
next
  case (stop_resolved e)
  with nc show ?thesis by simp
next
  case (stop_rejected e)
  with nc show ?thesis by simp
next
  case cleaned
  with b show ?thesis by (simp add: binv1_cleaned)
next
  case settle_stale
  with b show ?thesis by (simp add: binv1_finally)
next
  case settle_unmounted
  with b show ?thesis by (simp add: binv1_catch)
next
  case (settle_create e)
  with b show ?thesis using binv1_create [where w = w and k = k] by simp
next
  case (started i e le)
  with b show ?thesis by (simp add: binv1_started)
next
  case (rejected_stop e' e st i le x)
  with b show ?thesis by (simp add: binv1_rejected_stop)
next
  case (rejected_next e st i x le)
  from b rejected_next(1) have "binv1 (Starting i e le) (setState e st w)"
    by (simp add: binv1_rejected)
  with rejected_next(3) show ?thesis by (rule binv1_lnext)
next
  case (fallback_stopped i x e)
  from b fallback_stopped(1) have "binv1 (Starting i e None) (setState e NOT_STARTED w)"
    by (simp add: binv1_fallback)
  with fallback_stopped(2) show ?thesis by (rule binv1_lnext)
next
  case (fallback_stop_rejected i x e)
  from b fallback_stop_rejected(1) have "binv1 (Starting i e None) w"
    by (simp add: binv1_fallback_same)
  with fallback_stop_rejected(2) show ?thesis by (rule binv1_lnext)
qed

subsection \<open>Every event keeps the invariant\<close>

lemma binv_other:
  assumes b: "binv w" and a: "attempts w k = Some (p, c)" and c: "\<not> inflight c" "\<not> inflight c'"
  shows "binv (w\<lparr>attempts := (attempts w)(k \<mapsto> (p, c'))\<rparr>)"
proof -
  have n: "engineOf c' = None" "c' \<noteq> Settling" "c' \<noteq> CleanupDelay" "\<not> incleanup c'"
    using c(2) by (cases c'; simp)+
  have m: "\<not> incleanup c" using c(1) by (cases c) simp_all
  have ex: "\<exists>j q d. attempts w j = Some (q, d) \<and> incleanup d \<Longrightarrow>
    \<exists>j q d. ((attempts w)(k \<mapsto> (p, c'))) j = Some (q, d) \<and> incleanup d"
  proof -
    assume "\<exists>j q d. attempts w j = Some (q, d) \<and> incleanup d"
    then obtain j q d where j: "attempts w j = Some (q, d)" "incleanup d" by blast
    with a m have "j \<noteq> k" by auto
    with j have "((attempts w)(k \<mapsto> (p, c'))) j = Some (q, d) \<and> incleanup d" by simp
    then show ?thesis by blast
  qed
  show ?thesis using b unfolding binv_def
    apply (elim conjE)
    apply (intro conjI)
    subgoal by simp
    subgoal using n by (auto split: if_splits)
    subgoal by simp
    subgoal by simp
    subgoal
      apply (intro impI)
      apply (intro conjI)
      subgoal by simp
      subgoal using n by (auto split: if_splits)
      subgoal using n by (auto split: if_splits)
      subgoal using n by (auto split: if_splits)
      subgoal using ex by simp
      subgoal by simp
      done
    done
qed

lemma binv_wake:
  assumes i: "winv w" and b: "binv w" and r: "stopHonoured w (Wake k r)"
  shows "binv (wstep (Wake k r) w)"
proof (cases "attempts w k")
  case None
  with b show ?thesis by simp
next
  case (Some pc)
  obtain p c where pc: "pc = (p, c)" by (cases pc)
  with Some have a: "attempts w k = Some (p, c)" by simp
  show ?thesis
  proof (cases "resumeAttempt k p c r w")
    case None
    with a b show ?thesis by simp
  next
    case (Some cw)
    obtain c' w' where cw: "cw = (c', w')" by (cases cw)
    with Some have ra: "resumeAttempt k p c r w = Some (c', w')" by simp
    then have s: "astep k p c w c' w'" by (rule astep_sound)
    note f = astep_frame [OF s]
    have st: "wstep (Wake k r) w = w'\<lparr>attempts := (attempts w)(k \<mapsto> (p, c'))\<rparr>"
      using a ra f by simp
    show ?thesis
    proof (cases "c = Scheduled \<and> k \<noteq> initializationAttempt w")
      case True
      with ra have e: "c' = Finished" "w' = w" by (cases r; simp add: initScanner_def)+
      from binv_other [OF b a, of Finished] True have "binv (w\<lparr>attempts := (attempts w)(k \<mapsto> (p, Finished))\<rparr>)"
        by simp
      then show ?thesis unfolding st e .
    next
      case False
      have only: "\<forall>j q d. attempts w j = Some (q, d) \<longrightarrow> inflight d \<longrightarrow> j = k"
      proof (cases "inflight c")
        case True
        then show ?thesis using others_inflight [OF i a True] by blast
      next
        case nf: False
        with f have "c = Scheduled" by (cases c) simp_all
        with False have "k = initializationAttempt w" by simp
        with none_inflight [OF i] a \<open>c = Scheduled\<close> show ?thesis by blast
      qed
      have b1: "binv1 c w" using binv_binv1 [OF only a] b by simp
      have b1': "binv1 c' w'"
      proof (cases "\<exists>e. c = CleanupStop e")
        case True
        then obtain e where ce: "c = CleanupStop e" by blast
        from r a ce have "\<forall>x. r \<noteq> StopRejected x" by (cases r) simp_all
        with ra ce have "c' = CleanupDelay" "w' = setState e NOT_STARTED w"
          by (cases r; simp)+
        with b1 ce show ?thesis by (simp add: binv1_stop_resolved)
      next
        case nce: False
        show ?thesis by (rule astep_binv1 [OF s b1]) (use nce False in auto)
      qed
      define w2 where "w2 = w'\<lparr>attempts := (attempts w)(k \<mapsto> (p, c'))\<rparr>"
      have only2: "\<forall>j q d. attempts w2 j = Some (q, d) \<longrightarrow> inflight d \<longrightarrow> j = k"
        using only by (simp add: w2_def)
      have a2: "attempts w2 k = Some (p, c')" by (simp add: w2_def)
      have "binv1 c' w2" using b1' by (simp add: w2_def binv1_fields)
      then have "binv w2" using binv_binv1 [OF only2 a2] by simp
      then show ?thesis unfolding st w2_def .
    qed
  qed
qed

lemma binv_cleanup: "binv w \<Longrightarrow> binv (effectCleanup k w)"
proof (cases "attempts w k")
  case None
  assume "binv w"
  with None show ?thesis by (simp add: effectCleanup_def)
next
  case (Some pc)
  assume b: "binv w"
  obtain p c where pc: "pc = (p, c)" by (cases pc)
  with Some have a: "attempts w k = Some (p, c)" by simp
  define w1 where "w1 = (if c = Scheduled then w\<lparr>attempts := (attempts w)(k \<mapsto> (p, Cancelled))\<rparr> else w)"
  have b1: "binv w1"
  proof (cases "c = Scheduled")
    case True
    with binv_other [OF b a, of Cancelled] show ?thesis by (simp add: w1_def)
  next
    case False
    with b show ?thesis by (simp add: w1_def)
  qed
  have c: "binv (w1\<lparr>initializationAttempt := n\<rparr>)" for n
    using b1 by (simp add: binv_def)
  have "effectCleanup k w = (if k = initializationAttempt w1
      then w1\<lparr>initializationAttempt := initializationAttempt w1 + 1\<rparr> else w1)"
    using a by (simp add: effectCleanup_def w1_def Let_def)
  with b1 c show ?thesis by simp
qed

lemma binv_unmount: "binv w \<Longrightarrow> binv (wstep Unmount w)"
  by (auto simp: binv_def safeCleanup_def Let_def split: option.splits)

lemma binv_teardown: "binv w \<Longrightarrow> binv (wstep (WakeTeardown r) w)"
proof (cases "teardown w")
  case None
  assume "binv w" with None show ?thesis by simp
next
  case (Some c)
  assume b: "binv w"
  with Some have m: "\<not> mounted w" by (auto simp: binv_def)
  show ?thesis
  proof (cases "resumeCleanup c r w")
    case None
    with Some b show ?thesis by simp
  next
    case (Some cw)
    obtain c' w' where cw: "cw = (c', w')" by (cases cw)
    with Some have rc: "resumeCleanup c r w = Some (c', w')" by simp
    have st: "wstep (WakeTeardown r) w = w'\<lparr>teardown := c'\<rparr>"
      using \<open>teardown w = Some c\<close> rc by simp
    from rc b m show ?thesis unfolding st
      by (cases "(c, r, w)" rule: resumeCleanup.cases)
        (auto simp: binv_def running_setState split: if_splits)
  qed
qed

lemma binv_decoded: "binv w \<Longrightarrow> binv (wstep (Decoded e t res) w)"
  by (auto simp: binv_def split: option.splits scannerState.splits)

lemma binv_step: "winv w \<Longrightarrow> binv w \<Longrightarrow> stopHonoured w ev \<Longrightarrow> binv (wstep ev w)"
proof (cases ev)
  case (Effect p)
  assume "binv w" with Effect show ?thesis by (simp add: binv_effect)
next
  case (Cleanup k)
  assume "binv w" with Cleanup show ?thesis by (simp add: binv_cleanup)
next
  case Unmount
  assume "binv w" then show ?thesis unfolding Unmount by (rule binv_unmount)
next
  case (Wake k r)
  assume "winv w" "binv w" "stopHonoured w ev"
  then show ?thesis unfolding Wake by (rule binv_wake)
next
  case (WakeTeardown r)
  assume "binv w" then show ?thesis unfolding WakeTeardown by (rule binv_teardown)
next
  case (Decoded e t res)
  assume "binv w" then show ?thesis unfolding Decoded by (rule binv_decoded)
next
  case (DecodeFailed e m)
  assume "binv w" with DecodeFailed show ?thesis by simp
qed

lemma binv_run: "winv w \<Longrightarrow> binv w \<Longrightarrow> stopsHonoured evs w \<Longrightarrow> binv (wrun evs w)"
proof (induction evs arbitrary: w)
  case Nil
  then show ?case by simp
next
  case (Cons ev evs)
  from Cons.prems have "winv (wstep ev w)" "binv (wstep ev w)" "stopsHonoured evs (wstep ev w)"
    by (simp_all add: winv_step binv_step)
  then have "binv (wrun evs (wstep ev w))" by (rule Cons.IH)
  then show ?case by simp
qed

lemma binv_reachable: "stopsHonoured evs mountedWidget \<Longrightarrow> binv (wrun evs mountedWidget)"
  by (rule binv_run [OF winv_init binv_init])

lemma one_running:
  "stopsHonoured evs mountedWidget \<Longrightarrow> running (getState (wrun evs mountedWidget) e) \<Longrightarrow>
   running (getState (wrun evs mountedWidget) e') \<Longrightarrow> e = e'"
  using binv_reachable [of evs] latest_unique unfolding binv_def by blast
section \<open>Teardown and activation, repeated\<close>

lemma teardownRun_cases:
  "isStop so \<Longrightarrow> teardownRun so w =
     (case scanner w of
        None \<Rightarrow> w
      | Some e \<Rightarrow>
         if isCleaningUp w then w
         else (if running (getState w e) \<and> so = StopResolved then setState e NOT_STARTED w else w)
              \<lparr>scanner := None, isCleaningUp := False\<rparr>)"
  by (cases so)
    (auto simp: teardownRun_def safeCleanup_def Let_def getState_def setState_def
      split: option.splits)

lemma teardown_idem:
  assumes "isStop so" "isStop so'"
  shows "teardownRun so' (teardownRun so w) = teardownRun so w"
proof (cases "scanner w")
  case None
  then show ?thesis using assms by (simp add: teardownRun_cases)
next
  case (Some e)
  show ?thesis
  proof (cases "isCleaningUp w")
    case True
    with Some assms show ?thesis by (simp add: teardownRun_cases)
  next
    case False
    have "scanner (teardownRun so w) = None"
      using Some False assms by (simp add: teardownRun_cases)
    then show ?thesis using assms(2) by (simp add: teardownRun_cases)
  qed
qed

text \<open>
  What holds of teardown and of repeated activation in part_002. Teardown is total in the model
  (a rejected \<open>stop()\<close> is a value, caught at line 47) and idempotent: a second \<open>safeCleanup\<close>
  after a first one has run to its end changes nothing, on a session without a scanner it
  changes nothing, and after it the ref is null and the flag clear; a call made while another
  is in progress returns at once. An activation while one is initializing or cleaning up
  changes nothing. Of two activations in a row, with or without the effect's cleanup in
  between, only the later attempt is current. In every reachable state at most one attempt is
  between its first await and its return. In every state reached by a run in which the library
  rejects no \<open>stop()\<close> that \<open>safeCleanup\<close> awaits for an attempt, at most one engine is scanning
  or paused.
\<close>

lemma teardown_and_activation:
  "(isStop so \<and> isStop so' \<longrightarrow> teardownRun so' (teardownRun so w) = teardownRun so w) \<and>
   (isStop so \<and> scanner w = None \<longrightarrow> teardownRun so w = w) \<and>
   (isStop so \<and> \<not> isCleaningUp w \<longrightarrow>
      scanner (teardownRun so w) = None \<and> \<not> isCleaningUp (teardownRun so w)) \<and>
   (isCleaningUp w \<longrightarrow> safeCleanup w = (None, w)) \<and>
   (isInitializing' w \<or> isCleaningUp w \<longrightarrow> effect p w = w) \<and>
   (isActive p \<and> isActive p' \<and> mounted w \<and> \<not> isInitializing' w \<and> \<not> isCleaningUp w \<longrightarrow>
      attempts (wrun [Effect p, Effect p'] w) (initializationAttempt w + 1) = Some (p, Scheduled) \<and>
      attempts (wrun [Effect p, Effect p'] w) (initializationAttempt w + 2) = Some (p', Scheduled) \<and>
      initializationAttempt (wrun [Effect p, Effect p'] w) = initializationAttempt w + 2 \<and>
      wstep (Wake (initializationAttempt w + 1) Timeout) (wrun [Effect p, Effect p'] w)
        = (wrun [Effect p, Effect p'] w)\<lparr>attempts := (attempts (wrun [Effect p, Effect p'] w))
             (initializationAttempt w + 1 \<mapsto> (p, Finished))\<rparr> \<and>
      attempts (wrun [Effect p, Cleanup (initializationAttempt w + 1), Effect p'] w)
        (initializationAttempt w + 1) = Some (p, Cancelled) \<and>
      attempts (wrun [Effect p, Cleanup (initializationAttempt w + 1), Effect p'] w)
        (initializationAttempt w + 3) = Some (p', Scheduled) \<and>
      (\<forall>r. wstep (Wake (initializationAttempt w + 1) r)
             (wrun [Effect p, Cleanup (initializationAttempt w + 1), Effect p'] w)
           = wrun [Effect p, Cleanup (initializationAttempt w + 1), Effect p'] w)) \<and>
   (\<forall>j k q q' c d. attempts (wrun evs mountedWidget) j = Some (q, c) \<longrightarrow>
      attempts (wrun evs mountedWidget) k = Some (q', d) \<longrightarrow> inflight c \<longrightarrow> inflight d \<longrightarrow> j = k) \<and>
   (stopsHonoured evs mountedWidget \<longrightarrow>
      (\<forall>e e'. running (getState (wrun evs mountedWidget) e) \<longrightarrow>
         running (getState (wrun evs mountedWidget) e') \<longrightarrow> e = e'))"
proof -
  have 1: "isStop so \<and> isStop so' \<longrightarrow> teardownRun so' (teardownRun so w) = teardownRun so w"
    using teardown_idem by blast
  have 2: "isStop so \<and> scanner w = None \<longrightarrow> teardownRun so w = w"
    by (simp add: teardownRun_cases)
  have 3: "isStop so \<and> \<not> isCleaningUp w \<longrightarrow>
      scanner (teardownRun so w) = None \<and> \<not> isCleaningUp (teardownRun so w)"
    by (auto simp: teardownRun_cases split: option.splits)
  have 4: "isCleaningUp w \<longrightarrow> safeCleanup w = (None, w)"
    by (simp add: safeCleanup_def split: option.splits)
  have 5: "isInitializing' w \<or> isCleaningUp w \<longrightarrow> effect p w = w"
    by (auto simp: effect_def)
  have 6: "isActive p \<and> isActive p' \<and> mounted w \<and> \<not> isInitializing' w \<and> \<not> isCleaningUp w \<longrightarrow>
      attempts (wrun [Effect p, Effect p'] w) (initializationAttempt w + 1) = Some (p, Scheduled) \<and>
      attempts (wrun [Effect p, Effect p'] w) (initializationAttempt w + 2) = Some (p', Scheduled) \<and>
      initializationAttempt (wrun [Effect p, Effect p'] w) = initializationAttempt w + 2 \<and>
      wstep (Wake (initializationAttempt w + 1) Timeout) (wrun [Effect p, Effect p'] w)
        = (wrun [Effect p, Effect p'] w)\<lparr>attempts := (attempts (wrun [Effect p, Effect p'] w))
             (initializationAttempt w + 1 \<mapsto> (p, Finished))\<rparr> \<and>
      attempts (wrun [Effect p, Cleanup (initializationAttempt w + 1), Effect p'] w)
        (initializationAttempt w + 1) = Some (p, Cancelled) \<and>
      attempts (wrun [Effect p, Cleanup (initializationAttempt w + 1), Effect p'] w)
        (initializationAttempt w + 3) = Some (p', Scheduled) \<and>
      (\<forall>r. wstep (Wake (initializationAttempt w + 1) r)
             (wrun [Effect p, Cleanup (initializationAttempt w + 1), Effect p'] w)
           = wrun [Effect p, Cleanup (initializationAttempt w + 1), Effect p'] w)"
    by (auto simp: effect_def effectCleanup_def initScanner_def Let_def)
  have 7: "\<forall>j k q q' c d. attempts (wrun evs mountedWidget) j = Some (q, c) \<longrightarrow>
      attempts (wrun evs mountedWidget) k = Some (q', d) \<longrightarrow> inflight c \<longrightarrow> inflight d \<longrightarrow> j = k"
    using winv_reachable [of evs] unfolding winv_def by blast
  have 8: "stopsHonoured evs mountedWidget \<longrightarrow>
      (\<forall>e e'. running (getState (wrun evs mountedWidget) e) \<longrightarrow>
         running (getState (wrun evs mountedWidget) e') \<longrightarrow> e = e')"
    using one_running by blast
  show ?thesis using 1 2 3 4 5 6 7 8 by blast
qed

text \<open>
  These facts on a scanning session: teardown twice, teardown of a fresh widget, a re-entrant
  call, an activation during initialization, two activations in a row, and a second activation
  that replaces the scanning engine: engine 1 scans and engine 0 does not.
\<close>

lemma teardown_and_activation_example:
  "scanner scanningSession = Some 0 \<and> getState scanningSession 0 = SCANNING \<and>
   teardownRun (StopRejected permissionError) (teardownRun StopResolved scanningSession)
     = teardownRun StopResolved scanningSession \<and>
   scanner (teardownRun StopResolved scanningSession) = None \<and>
   \<not> isCleaningUp (teardownRun StopResolved scanningSession) \<and>
   teardownRun StopResolved mountedWidget = mountedWidget \<and>
   isCleaningUp (wrun [Effect defaultProps, Wake 2 Timeout] scanningSession) \<and>
   safeCleanup (wrun [Effect defaultProps, Wake 2 Timeout] scanningSession)
     = (None, wrun [Effect defaultProps, Wake 2 Timeout] scanningSession) \<and>
   isInitializing' (wrun toFirstStart mountedWidget) \<and>
   effect defaultProps (wrun toFirstStart mountedWidget) = wrun toFirstStart mountedWidget \<and>
   attempts (wrun [Effect defaultProps, Effect defaultProps] scanningSession) 2
     = Some (defaultProps, Scheduled) \<and>
   attempts (wrun [Effect defaultProps, Effect defaultProps] scanningSession) 3
     = Some (defaultProps, Scheduled) \<and>
   attempts (wstep (Wake 2 Timeout) (wrun [Effect defaultProps, Effect defaultProps] scanningSession)) 2
     = Some (defaultProps, Finished) \<and>
   attempts (wrun toFirstStart mountedWidget) 1 = Some (defaultProps, Starting 0 0 None) \<and>
   inflight (Starting 0 0 None) \<and>
   \<not> (\<exists>k q d. k \<noteq> 1 \<and> attempts (wrun toFirstStart mountedWidget) k = Some (q, d) \<and> inflight d) \<and>
   stopsHonoured restartedSession mountedWidget \<and>
   getState (wrun restartedSession mountedWidget) 1 = SCANNING \<and>
   \<not> running (getState (wrun restartedSession mountedWidget) 0)"
proof -
  define w0 where "w0 = wrun toFirstStart mountedWidget"
  define wc where "wc = wrun [Effect defaultProps, Wake 2 Timeout] scanningSession"
  define w2 where "w2 = wrun [Effect defaultProps, Effect defaultProps] scanningSession"
  have s: "scanner scanningSession = Some 0" "getState scanningSession 0 = SCANNING"
    "\<not> isCleaningUp scanningSession" "\<not> isInitializing' scanningSession" "mounted scanningSession"
    "initializationAttempt scanningSession = 1"
    by (simp_all add: scanningSession_def toFirstStart_def defaultProps_def widget_defs loopHead.simps)
  have c: "isCleaningUp wc"
    by (simp add: wc_def scanningSession_def toFirstStart_def defaultProps_def widget_defs
        loopHead.simps)
  have i: "isInitializing' w0" "attempts w0 1 = Some (defaultProps, Starting 0 0 None)"
    by (simp_all add: w0_def toFirstStart_def defaultProps_def widget_defs loopHead.simps)
  have m: "scanner mountedWidget = None" by (simp add: mountedWidget_def)
  have st: "isStop StopResolved" "isStop (StopRejected permissionError)" "isActive defaultProps"
    "inflight (Starting 0 0 None)"
    by (simp_all add: defaultProps_def)
  note t1 = teardown_and_activation [of StopResolved "StopRejected permissionError" scanningSession defaultProps
      defaultProps toFirstStart, unfolded s(6), folded w2_def w0_def]
  note t2 = teardown_and_activation [of StopResolved StopResolved mountedWidget]
  note t3 = teardown_and_activation [of StopResolved StopResolved wc]
  note t4 = teardown_and_activation [of StopResolved StopResolved w0 defaultProps]
  from t1 st s have a: "teardownRun (StopRejected permissionError) (teardownRun StopResolved scanningSession)
     = teardownRun StopResolved scanningSession"
    "scanner (teardownRun StopResolved scanningSession) = None"
    "\<not> isCleaningUp (teardownRun StopResolved scanningSession)"
    by blast+
  from t1 st s have b: "attempts w2 (1 + 1) = Some (defaultProps, Scheduled)"
    "attempts w2 (1 + 2) = Some (defaultProps, Scheduled)"
    "wstep (Wake (1 + 1) Timeout) w2 = w2\<lparr>attempts := (attempts w2)(1 + 1 \<mapsto> (defaultProps, Finished))\<rparr>"
    by blast+
  from t1 have one: "\<forall>j k q q' c d. attempts w0 j = Some (q, c) \<longrightarrow>
      attempts w0 k = Some (q', d) \<longrightarrow> inflight c \<longrightarrow> inflight d \<longrightarrow> j = k" by blast
  have o: "\<not> (\<exists>k q d. k \<noteq> 1 \<and> attempts w0 k = Some (q, d) \<and> inflight d)"
    using one i(2) st(4) by blast
  from t2 st m have d: "teardownRun StopResolved mountedWidget = mountedWidget" by blast
  from t3 c have e: "safeCleanup wc = (None, wc)" by blast
  from t4 i have f: "effect defaultProps w0 = w0" by blast
  have b': "attempts w2 2 = Some (defaultProps, Scheduled)" "attempts w2 3 = Some (defaultProps, Scheduled)"
    "attempts (wstep (Wake 2 Timeout) w2) 2 = Some (defaultProps, Finished)"
    using b by (simp_all add: numeral_2_eq_2 numeral_3_eq_3 del: wstep.simps)
  define wr where "wr = wrun restartedSession mountedWidget"
  have h: "stopsHonoured restartedSession mountedWidget"
    by (simp add: restartedSession_def toFirstStart_def defaultProps_def widget_defs loopHead.simps)
  have g: "getState wr 1 = SCANNING"
    by (simp add: wr_def restartedSession_def toFirstStart_def defaultProps_def widget_defs
        loopHead.simps)
  note t5 = teardown_and_activation [of _ _ _ _ _ restartedSession, folded wr_def]
  from t5 h have u: "\<forall>e e'. running (getState wr e) \<longrightarrow> running (getState wr e') \<longrightarrow> e = e'"
    by blast
  have "running (getState wr 1)" using g by (simp add: running_def)
  with u have n: "\<not> running (getState wr 0)" by fastforce
  show ?thesis unfolding w0_def [symmetric] wc_def [symmetric] w2_def [symmetric] wr_def [symmetric]
    using s a b' c d e f i o st(4) h g n by (simp del: wstep.simps wrun_Cons wrun_Nil)
qed

text \<open>
  Without that proviso two engines can scan at once: the \<open>stop()\<close> that the second activation
  awaits is rejected, line 47 swallows the rejection, the ref is cleared and a second engine is
  created and started while the first still scans.
\<close>

lemma rejected_stop_overlaps:
  "attempts (wrun (take 7 stopRejectedSession) mountedWidget) 3 = Some (defaultProps, CleanupStop 0) \<and>
   \<not> stopsHonoured stopRejectedSession mountedWidget \<and>
   getState (wrun stopRejectedSession mountedWidget) 0 = SCANNING \<and>
   getState (wrun stopRejectedSession mountedWidget) 1 = SCANNING"
  by (simp add: stopRejectedSession_def toFirstStart_def defaultProps_def widget_defs loopHead.simps)

subsection \<open>An activation superseded during the settling delay\<close>

lemma blocked_wake: "blocked w \<Longrightarrow> wstep (Wake k r) w = w"
proof (cases "attempts w k")
  case None
  then show ?thesis by simp
next
  case (Some pc)
  assume b: "blocked w"
  obtain p c where pc: "pc = (p, c)" by (cases pc)
  with Some b have "c = Finished \<or> c = Cancelled" unfolding blocked_def by blast
  then have "resumeAttempt k p c r w = None" by auto
  with Some pc show ?thesis by simp
qed

lemma blocked_cleanup: "blocked w \<Longrightarrow> blocked (effectCleanup k w)"
proof (cases "attempts w k")
  case None
  assume "blocked w" with None show ?thesis by (simp add: effectCleanup_def)
next
  case (Some pc)
  assume b: "blocked w"
  obtain p c where pc: "pc = (p, c)" by (cases pc)
  with Some b have "c \<noteq> Scheduled" unfolding blocked_def by auto
  with Some pc have "effectCleanup k w = (if k = initializationAttempt w
      then w\<lparr>initializationAttempt := initializationAttempt w + 1\<rparr> else w)"
    by (simp add: effectCleanup_def Let_def)
  with b show ?thesis by (simp add: blocked_def)
qed

lemma blocked_step: "blocked w \<Longrightarrow> blocked (wstep ev w)"
proof (cases ev)
  case (Effect p)
  assume "blocked w" with Effect show ?thesis by (simp add: effect_def blocked_def)
next
  case (Cleanup k)
  assume "blocked w" with Cleanup show ?thesis by (simp add: blocked_cleanup)
next
  case Unmount
  assume "blocked w" with Unmount show ?thesis by (simp add: blocked_def safeCleanup_def)
next
  case (Wake k r)
  assume "blocked w" with Wake show ?thesis by (simp add: blocked_wake del: wstep.simps)
next
  case (WakeTeardown r)
  assume "blocked w" with WakeTeardown show ?thesis by (simp add: blocked_def)
next
  case (Decoded e t res)
  assume "blocked w" with Decoded show ?thesis by (simp add: blocked_def)
next
  case (DecodeFailed e m)
  assume "blocked w" with DecodeFailed show ?thesis by simp
qed

lemma blocked_run: "blocked w \<Longrightarrow> blocked (wrun evs w)"
  by (induction evs arbitrary: w) (simp_all add: blocked_step del: wstep.simps)

lemma blocked_after_supersession: "blocked (wrun supersededWhileSettling mountedWidget)"
  by (simp add: blocked_def supersededWhileSettling_def defaultProps_def widget_defs)

text \<open>
  Claim C9 (teardown and activation are idempotent; activating twice in a row gives exactly one
  live session). In part_002 a second activation can leave the widget without any session, for
  good. The timer of attempt 1 has fired and the attempt awaits the settling delay of line 87
  when a dependency of the effect changes. The cleanup of the effect advances the counter to 2
  (lines 213 to 215); the effect runs again and returns at the guard of line 68, since
  \<open>isInitializing\<close> is set, so no attempt 2 exists. When the delay ends, attempt 1 finds itself
  outdated and returns at line 91, and the \<open>finally\<close> block leaves \<open>isInitializing\<close> set because
  the attempt is not the current one (line 201). From then on every run of the effect returns
  at the guard: whatever happens next, \<open>isInitializing\<close> stays set, \<open>start\<close> is never called, no
  engine exists and no callback is called, although the component is mounted and active.
\<close>

theorem superseded_attempt_blocks_widget:
  "attempts (wrun (take 2 supersededWhileSettling) mountedWidget) 1 = Some (defaultProps, Settling) \<and>
   initializationAttempt (wrun (take 3 supersededWhileSettling) mountedWidget) = 2 \<and>
   wrun (take 4 supersededWhileSettling) mountedWidget
     = wrun (take 3 supersededWhileSettling) mountedWidget \<and>
   attempts (wrun supersededWhileSettling mountedWidget) 1 = Some (defaultProps, Finished) \<and>
   attempts (wrun supersededWhileSettling mountedWidget) 2 = None \<and>
   mounted (wrun supersededWhileSettling mountedWidget) \<and>
   isInitializing' (wrun supersededWhileSettling mountedWidget) \<and>
   (\<forall>p. wstep (Effect p) (wrun supersededWhileSettling mountedWidget)
      = wrun supersededWhileSettling mountedWidget) \<and>
   (\<forall>evs. isInitializing' (wrun evs (wrun supersededWhileSettling mountedWidget)) \<and>
      starts (wrun evs (wrun supersededWhileSettling mountedWidget)) = [] \<and>
      calls (wrun evs (wrun supersededWhileSettling mountedWidget)) = [] \<and>
      scanner (wrun evs (wrun supersededWhileSettling mountedWidget)) = None \<and>
      (\<forall>e. engines (wrun evs (wrun supersededWhileSettling mountedWidget)) e = None))"
proof -
  define w where "w = wrun supersededWhileSettling mountedWidget"
  have a: "attempts (wrun (take 2 supersededWhileSettling) mountedWidget) 1 = Some (defaultProps, Settling)"
    "initializationAttempt (wrun (take 3 supersededWhileSettling) mountedWidget) = 2"
    "wrun (take 4 supersededWhileSettling) mountedWidget
     = wrun (take 3 supersededWhileSettling) mountedWidget"
    by (simp_all add: supersededWhileSettling_def defaultProps_def widget_defs)
  have b: "attempts w 1 = Some (defaultProps, Finished)" "attempts w 2 = None" "mounted w"
    "isInitializing' w"
    by (simp_all add: w_def supersededWhileSettling_def defaultProps_def widget_defs)
  have c: "\<forall>p. wstep (Effect p) w = w" using b(4) by (simp add: effect_def)
  have d: "\<forall>evs. isInitializing' (wrun evs w) \<and> starts (wrun evs w) = [] \<and>
      calls (wrun evs w) = [] \<and> scanner (wrun evs w) = None \<and> (\<forall>e. engines (wrun evs w) e = None)"
  proof
    fix evs
    have "blocked (wrun evs w)" unfolding w_def
      by (rule blocked_run [OF blocked_after_supersession])
    then show "isInitializing' (wrun evs w) \<and> starts (wrun evs w) = [] \<and>
      calls (wrun evs w) = [] \<and> scanner (wrun evs w) = None \<and> (\<forall>e. engines (wrun evs w) e = None)"
      unfolding blocked_def by blast
  qed
  show ?thesis using a b c d unfolding w_def by (intro conjI)
qed
end
